theory Spec2Isabelle
  imports Main
begin

section \<open>JSON values\<close>

text \<open>
  The value trees are what Go's \<^verbatim>\<open>encoding/json\<close> decodes into an \<^verbatim>\<open>interface{}\<close>:
  \<^verbatim>\<open>string\<close>, \<^verbatim>\<open>float64\<close>, \<^verbatim>\<open>bool\<close>, \<^verbatim>\<open>nil\<close>, \<^verbatim>\<open>[]interface{}\<close> and
  \<^verbatim>\<open>map[string]interface{}\<close>. The filter never inspects a number, so the numeric payload is
  the type parameter \<open>'n\<close>. A map is an association list: its order is the order in which
  \<^verbatim>\<open>range\<close> happens to visit the entries (Go leaves it unspecified, and every order is a
  list), a lookup \<^verbatim>\<open>m[key]\<close> is \<open>map_of\<close>. Strings are byte sequences, as in Go.
\<close>

datatype 'n json =
    JString string
  | JNumber 'n
  | JBool bool
  | JNull
  | JArray "'n json list"
  | JObject "(string \<times> 'n json) list"

text \<open>
  A Go \<^verbatim>\<open>error\<close> value: \<^verbatim>\<open>io.EOF\<close>, which the code compares against, or any other
  error with its message.
\<close>

datatype error = EOF | Error string

section \<open>The library functions the resolver calls\<close>

text \<open>
  \<^verbatim>\<open>strings.FieldsFunc(s, f)\<close> splits \<open>s\<close> at each run of characters satisfying \<open>f\<close> and
  returns the non-empty pieces between the runs. The library scans the string once and
  remembers where the current field started; \<open>cur\<close> is the field collected so far (empty
  when the scan is between fields). The separators used here are ASCII, so scanning bytes
  and scanning UTF-8 code points split at the same places.
\<close>

fun fieldsFrom :: "(char \<Rightarrow> bool) \<Rightarrow> string \<Rightarrow> string \<Rightarrow> string list" where
  "fieldsFrom f cur [] = (if cur = [] then [] else [cur])"
| "fieldsFrom f cur (c # cs) =
     (if f c then (if cur = [] then fieldsFrom f [] cs else cur # fieldsFrom f [] cs)
      else fieldsFrom f (cur @ [c]) cs)"

definition FieldsFunc :: "string \<Rightarrow> (char \<Rightarrow> bool) \<Rightarrow> string list" where
  "FieldsFunc s f = fieldsFrom f [] s"

text \<open>
  \<^verbatim>\<open>strings.Trim(s, cutset)\<close> removes every leading and every trailing character that occurs
  in \<open>cutset\<close>.
\<close>

definition Trim :: "string \<Rightarrow> string \<Rightarrow> string" where
  "Trim s cutset =
     rev (dropWhile (\<lambda>c. c \<in> set cutset) (rev (dropWhile (\<lambda>c. c \<in> set cutset) s)))"

text \<open>
  \<^verbatim>\<open>strconv.ParseInt(s, 10, 32)\<close>: an optional sign, then one or more decimal digits and
  nothing else; the value has to fit a signed 32-bit integer. \<open>None\<close> stands for
  \<^verbatim>\<open>err != nil\<close> (a syntax error or a range error).
\<close>

definition isDigit :: "char \<Rightarrow> bool" where
  "isDigit c = (48 \<le> (of_char c :: nat) \<and> (of_char c :: nat) \<le> 57)"

definition digitsValue :: "string \<Rightarrow> nat" where
  "digitsValue ds = foldl (\<lambda>acc c. 10 * acc + ((of_char c :: nat) - 48)) 0 ds"

definition parseDigits :: "string \<Rightarrow> nat option" where
  "parseDigits ds = (if ds \<noteq> [] \<and> list_all isDigit ds then Some (digitsValue ds) else None)"

definition inInt32 :: "int \<Rightarrow> bool" where
  "inInt32 i = (- (2 ^ 31) \<le> i \<and> i < 2 ^ 31)"

fun ParseInt32 :: "string \<Rightarrow> int option" where
  "ParseInt32 [] = None"
| "ParseInt32 (c # cs) =
     (if c = CHR ''+'' then
        (case parseDigits cs of None \<Rightarrow> None
         | Some n \<Rightarrow> if inInt32 (int n) then Some (int n) else None)
      else if c = CHR ''-'' then
        (case parseDigits cs of None \<Rightarrow> None
         | Some n \<Rightarrow> if inInt32 (- int n) then Some (- int n) else None)
      else
        (case parseDigits (c # cs) of None \<Rightarrow> None
         | Some n \<Rightarrow> if inInt32 (int n) then Some (int n) else None))"

text \<open>
  \<^verbatim>\<open>fmt.Sprintf("%d", k)\<close> for a slice index \<open>k\<close> (never negative): the decimal digits,
  without leading zeros.
\<close>

fun decimal :: "nat \<Rightarrow> string" where
  "decimal n =
     (if n < 10 then [char_of (48 + n)] else decimal (n div 10) @ [char_of (48 + n mod 10)])"

declare decimal.simps [simp del]

section \<open>The filter resolver\<close>

text \<open>
  \<^verbatim>\<open>getFilterCommandRec\<close> returns \<^verbatim>\<open>(interface{}, bool)\<close>; the value is \<^verbatim>\<open>nil\<close> exactly
  when the flag is false, so the pair is an option.
\<close>

fun getFilterCommandRec :: "string list \<Rightarrow> 'n json \<Rightarrow> 'n json option" where
  "getFilterCommandRec [] filters = Some filters"
| "getFilterCommandRec (k # keys) filters =
     (let key = Trim k [CHR 0x27] in
      case filters of
        JString c \<Rightarrow> Some filters
      | JObject m \<Rightarrow>
          (case map_of m key of
             Some v \<Rightarrow> getFilterCommandRec keys v
           | None \<Rightarrow> None)
      | JArray s \<Rightarrow>
          (if length s = 1 then getFilterCommandRec keys (s ! 0)
           else
             (case ParseInt32 key of
                Some i \<Rightarrow>
                  (if i < int (length s) \<and> i \<ge> 0 then getFilterCommandRec keys (s ! nat i)
                   else None)
              | None \<Rightarrow> None))
      | _ \<Rightarrow> None)"

definition isBracket :: "char \<Rightarrow> bool" where
  "isBracket r = (r = CHR ''['' \<or> r = CHR '']'')"

text \<open>
  \<^verbatim>\<open>getFilterCommand\<close> returns \<^verbatim>\<open>(command string, found bool)\<close>; \<open>command\<close> keeps its zero
  value whenever \<open>found\<close> is false, so this pair is an option as well.
\<close>

definition getFilterCommand :: "string \<Rightarrow> 'n json \<Rightarrow> string option" where
  "getFilterCommand path filters =
     (let keys = FieldsFunc path isBracket in
      case getFilterCommandRec keys filters of
        Some (JString command) \<Rightarrow> Some command
      | _ \<Rightarrow> None)"

section \<open>The tree traverser\<close>

text \<open>
  A filter runner is a Go closure: it may keep state of its own between calls (the stubs
  of the tests count and check their calls; the default runner starts a process). The
  state is passed explicitly: \<open>'s\<close> is whatever the runner can observe or change. Go's
  two results \<^verbatim>\<open>(string, error)\<close> are a pair, \<open>None\<close> for \<^verbatim>\<open>nil\<close>.
\<close>

type_synonym 's FilterRunner = "string \<Rightarrow> string \<Rightarrow> 's \<Rightarrow> (string \<times> error option) \<times> 's"

type_synonym 's visitorFunc = "string \<Rightarrow> string \<Rightarrow> 's \<Rightarrow> (string \<times> error option) \<times> 's"

text \<open>
  The loops of \<^verbatim>\<open>traverseMap\<close> and \<^verbatim>\<open>traverseSlice\<close> are recursions over the entries still
  to visit; the result holds those entries as the loop leaves them. The keys of a Go map
  are unique, so \<^verbatim>\<open>m[k] = ...\<close> overwrites the entry being visited and no other. The
  assignment happens before the error is tested: the entry at which the loop breaks holds
  whatever came back with the error. \<^verbatim>\<open>traverseSlice\<close> carries the index \<open>i\<close> of the
  first remaining element.
\<close>

fun traverseWithPath :: "'n json \<Rightarrow> string \<Rightarrow> 's visitorFunc \<Rightarrow> 's \<Rightarrow> ('n json \<times> error option) \<times> 's"
  and traverseMap :: "(string \<times> 'n json) list \<Rightarrow> string \<Rightarrow> 's visitorFunc \<Rightarrow> 's \<Rightarrow>
         ((string \<times> 'n json) list \<times> error option) \<times> 's"
  and traverseSlice :: "'n json list \<Rightarrow> nat \<Rightarrow> string \<Rightarrow> 's visitorFunc \<Rightarrow> 's \<Rightarrow>
         ('n json list \<times> error option) \<times> 's"
where
  "traverseWithPath (JString v) path visit s =
     (case visit path v s of ((r, err), s') \<Rightarrow> ((JString r, err), s'))"
| "traverseWithPath (JObject m) path visit s =
     (case traverseMap m path visit s of ((m', err), s') \<Rightarrow> ((JObject m', err), s'))"
| "traverseWithPath (JArray slice) path visit s =
     (case traverseSlice slice 0 path visit s of ((slice', err), s') \<Rightarrow> ((JArray slice', err), s'))"
| "traverseWithPath (JNumber n) path visit s = ((JNumber n, None), s)"
| "traverseWithPath (JBool b) path visit s = ((JBool b, None), s)"
| "traverseWithPath JNull path visit s = ((JNull, None), s)"
| "traverseMap [] path visit s = (([], None), s)"
| "traverseMap ((k, v) # rest) path visit s =
     (case traverseWithPath v (path @ ''['' @ [CHR 0x27] @ k @ [CHR 0x27] @ '']'') visit s of
        ((v', err), s') \<Rightarrow>
          (if err \<noteq> None then (((k, v') # rest, err), s')
           else (case traverseMap rest path visit s' of
                   ((rest', err'), s'') \<Rightarrow> (((k, v') # rest', err'), s''))))"
| "traverseSlice [] i path visit s = (([], None), s)"
| "traverseSlice (v # rest) i path visit s =
     (case traverseWithPath v (path @ ''['' @ decimal i @ '']'') visit s of
        ((v', err), s') \<Rightarrow>
          (if err \<noteq> None then ((v' # rest, err), s')
           else (case traverseSlice rest (Suc i) path visit s' of
                   ((rest', err'), s'') \<Rightarrow> ((v' # rest', err'), s''))))"

definition traverse :: "'n json \<Rightarrow> 's visitorFunc \<Rightarrow> 's \<Rightarrow> ('n json \<times> error option) \<times> 's" where
  "traverse v visit s = traverseWithPath v [] visit s"

section \<open>Running the filters\<close>

text \<open>
  What lies outside the program: opening and reading a file (\<^verbatim>\<open>os.Open\<close>,
  \<^verbatim>\<open>bufio.NewReader\<close>) and the JSON decoder (\<^verbatim>\<open>json.NewDecoder(reader).Decode\<close>, here a
  function of the text read) are the two fields of a \<open>world\<close>. The process that
  \<^verbatim>\<open>commandLineFilterRunner\<close> starts is outside as well: what that function returns is the
  parameter \<open>commandLine\<close> of the functions that reach it, a runner like any other.
\<close>

record 'n world =
  openFile :: "string \<Rightarrow> error + string"
  decode :: "string \<Rightarrow> 'n json \<times> error option"

definition readJsonFromReader :: "'n world \<Rightarrow> string \<Rightarrow> 'n json \<times> error option" where
  "readJsonFromReader w text =
     (case decode w text of (v, err) \<Rightarrow> if err = Some EOF then (v, None) else (v, err))"

definition readJsonFromText :: "'n world \<Rightarrow> string \<Rightarrow> 'n json \<times> error option" where
  "readJsonFromText w jsonText = readJsonFromReader w jsonText"

definition readJsonFromFile :: "'n world \<Rightarrow> string \<Rightarrow> 'n json \<times> error option" where
  "readJsonFromFile w fileName =
     (case openFile w fileName of
        Inr text \<Rightarrow> readJsonFromReader w text
      | Inl err \<Rightarrow> (JNull, Some err))"

definition HasSuffix :: "string \<Rightarrow> string \<Rightarrow> bool" where
  "HasSuffix s suffix =
     (length suffix \<le> length s \<and> drop (length s - length suffix) s = suffix)"

definition loadFilters :: "'n world \<Rightarrow> string \<Rightarrow> 'n json \<times> error option" where
  "loadFilters w filter' =
     (if HasSuffix filter' ''.json'' then readJsonFromFile w filter' else (JString filter', None))"

definition doRunFilter ::
  "'s FilterRunner \<Rightarrow> string \<Rightarrow> string \<Rightarrow> 'n json \<Rightarrow> 's FilterRunner option \<Rightarrow> 's \<Rightarrow>
     (string \<times> error option) \<times> 's" where
  "doRunFilter commandLine path v filters filterRunner s =
     (case getFilterCommand path filters of
        Some command \<Rightarrow>
          (case filterRunner of
             None \<Rightarrow> commandLine command v s
           | Some run \<Rightarrow> run command v s)
      | None \<Rightarrow> ((v, None), s))"

text \<open>
  \<^verbatim>\<open>doFilter\<close> keeps only the error of \<^verbatim>\<open>traverse\<close> (\<^verbatim>\<open>_,err = traverse(...)\<close>); what its
  caller gets back is the \<^verbatim>\<open>value\<close> it passed in. A map or a slice shares its storage
  with the traversal, so the caller's value holds the entries the traversal wrote. A
  string, a number, a bool or nil is a plain Go value that no assignment inside the
  traversal can reach: the caller's value is still the one it passed. \<open>callerValue\<close> is
  the caller's value after the call, and \<^verbatim>\<open>doFilter\<close> returns it with the error.
\<close>

fun callerValue :: "'n json \<Rightarrow> 'n json \<Rightarrow> 'n json" where
  "callerValue (JObject m) traversed = traversed"
| "callerValue (JArray slice) traversed = traversed"
| "callerValue v traversed = v"

definition doFilter ::
  "'n world \<Rightarrow> 's FilterRunner \<Rightarrow> 'n json \<Rightarrow> string \<Rightarrow> 's FilterRunner option \<Rightarrow> 's \<Rightarrow>
     ('n json \<times> error option) \<times> 's" where
  "doFilter w commandLine v filter' filterRunner s =
     (case loadFilters w filter' of
        (filters, Some err) \<Rightarrow> ((v, Some err), s)
      | (filters, None) \<Rightarrow>
          (case traverse v (\<lambda>path x. doRunFilter commandLine path x filters filterRunner) s of
             ((traversed, err), s') \<Rightarrow> ((callerValue v traversed, err), s')))"

definition FilterJsonFromTextWithFilterRunner ::
  "'n world \<Rightarrow> 's FilterRunner \<Rightarrow> string \<Rightarrow> string \<Rightarrow> 's FilterRunner option \<Rightarrow> 's \<Rightarrow>
     ('n json \<times> error option) \<times> 's" where
  "FilterJsonFromTextWithFilterRunner w commandLine jsonText filter' filterRunner s =
     (case readJsonFromText w jsonText of
        (v, Some err) \<Rightarrow> ((v, Some err), s)
      | (v, None) \<Rightarrow> doFilter w commandLine v filter' filterRunner s)"

definition FilterJsonFromText ::
  "'n world \<Rightarrow> 's FilterRunner \<Rightarrow> string \<Rightarrow> string \<Rightarrow> 's \<Rightarrow> ('n json \<times> error option) \<times> 's" where
  "FilterJsonFromText w commandLine jsonText filter' s =
     (case readJsonFromText w jsonText of
        (v, Some err) \<Rightarrow> ((v, Some err), s)
      | (v, None) \<Rightarrow> doFilter w commandLine v filter' None s)"

section \<open>Paths, as the specification speaks of them\<close>

text \<open>
  The code has no path type: it builds one string per leaf. The segments below name the
  two ways in which it extends that string (\<^verbatim>\<open>"%s['%s']"\<close> in \<^verbatim>\<open>traverseMap\<close>,
  \<^verbatim>\<open>"%s[%d]"\<close> in \<^verbatim>\<open>traverseSlice\<close>), so that a node of a tree can be addressed.
\<close>

datatype PathSegment = is_Key: Key string | is_Index: Index nat

fun segmentString :: "PathSegment \<Rightarrow> string" where
  "segmentString (Key k) = ''['' @ [CHR 0x27] @ k @ [CHR 0x27] @ '']''"
| "segmentString (Index i) = ''['' @ decimal i @ '']''"

definition pathString :: "PathSegment list \<Rightarrow> string" where
  "pathString p = concat (map segmentString p)"

fun nodeAt :: "'n json \<Rightarrow> PathSegment list \<Rightarrow> 'n json option" where
  "nodeAt v [] = Some v"
| "nodeAt (JObject m) (Key k # p) = (case map_of m k of Some v \<Rightarrow> nodeAt v p | None \<Rightarrow> None)"
| "nodeAt (JArray slice) (Index i # p) = (if i < length slice then nodeAt (slice ! i) p else None)"
| "nodeAt v (seg # p) = None"

text \<open>
  The calls of \<^verbatim>\<open>getFilterCommandRec\<close>: \<open>reaches keys filters keys' filters'\<close> holds when
  the call on \<open>keys\<close> and \<open>filters\<close> is, or leads through its recursive calls to, the call
  on \<open>keys'\<close> and \<open>filters'\<close>. One rule for each recursive call of the source.
\<close>

inductive reaches :: "string list \<Rightarrow> 'n json \<Rightarrow> string list \<Rightarrow> 'n json \<Rightarrow> bool" where
  here: "reaches keys filters keys filters"
| object: "map_of m (Trim k [CHR 0x27]) = Some v \<Longrightarrow> reaches keys v keys' filters'
     \<Longrightarrow> reaches (k # keys) (JObject m) keys' filters'"
| single: "length s = 1 \<Longrightarrow> reaches keys (s ! 0) keys' filters'
     \<Longrightarrow> reaches (k # keys) (JArray s) keys' filters'"
| indexed: "length s \<noteq> 1 \<Longrightarrow> ParseInt32 (Trim k [CHR 0x27]) = Some i
     \<Longrightarrow> i < int (length s) \<Longrightarrow> i \<ge> 0 \<Longrightarrow> reaches keys (s ! nat i) keys' filters'
     \<Longrightarrow> reaches (k # keys) (JArray s) keys' filters'"

text \<open>A runner without state that never fails: it returns \<open>f command value\<close>.\<close>

definition succeeding :: "(string \<Rightarrow> string \<Rightarrow> string) \<Rightarrow> 's FilterRunner" where
  "succeeding f command v s = ((f command v, None), s)"






section \<open>What a traversal visits\<close>

text \<open>
  The string leaves of a tree, each with the path string under which the traversal visits
  it, in the order of the visits: the entries of a map in their \<^verbatim>\<open>range\<close> order, the
  elements of a slice by index.
\<close>

fun leaves :: "'n json \<Rightarrow> string \<Rightarrow> (string \<times> string) list"
  and leavesMap :: "(string \<times> 'n json) list \<Rightarrow> string \<Rightarrow> (string \<times> string) list"
  and leavesSlice :: "'n json list \<Rightarrow> nat \<Rightarrow> string \<Rightarrow> (string \<times> string) list"
where
  "leaves (JString x) path = [(path, x)]"
| "leaves (JObject m) path = leavesMap m path"
| "leaves (JArray slice) path = leavesSlice slice 0 path"
| "leaves (JNumber n) path = []"
| "leaves (JBool b) path = []"
| "leaves JNull path = []"
| "leavesMap [] path = []"
| "leavesMap ((k, v) # rest) path = leaves v (path @ segmentString (Key k)) @ leavesMap rest path"
| "leavesSlice [] i path = []"
| "leavesSlice (v # rest) i path =
     leaves v (path @ segmentString (Index i)) @ leavesSlice rest (Suc i) path"

text \<open>Calling a visitor on a list of leaves, one after the other, up to the first error.\<close>

fun runVisits :: "'s visitorFunc \<Rightarrow> (string \<times> string) list \<Rightarrow> 's \<Rightarrow> error option \<times> 's" where
  "runVisits visit [] s = (None, s)"
| "runVisits visit ((path, x) # rest) s =
     (case visit path x s of
        ((r, err), s') \<Rightarrow> if err \<noteq> None then (err, s') else runVisits visit rest s')"

text \<open>
  The leaves for which the resolver finds a command, with that command: the calls of the
  filter runner that a traversal without errors makes.
\<close>

fun matched :: "'n json \<Rightarrow> (string \<times> string) list \<Rightarrow> (string \<times> string) list" where
  "matched filters [] = []"
| "matched filters ((path, x) # rest) =
     (case getFilterCommand path filters of
        Some c \<Rightarrow> (c, x) # matched filters rest
      | None \<Rightarrow> matched filters rest)"

text \<open>
  A runner that keeps a record of its calls, as a stub of a test does: the state is the
  list of the calls made so far (command, value, and what the runner returned) next to
  the state of the runner it wraps.
\<close>

datatype call = Call (commandOf: string) (valueOf: string) (resultOf: string) (errorOf: "error option")

definition recording :: "'s FilterRunner \<Rightarrow> (call list \<times> 's) FilterRunner" where
  "recording run c v =
     (\<lambda>(log, s). case run c v s of ((r, err), s') \<Rightarrow> ((r, err), (log @ [Call c v r err], s')))"

text \<open>
  The trees that a decoded JSON document can be: the keys of a Go map are pairwise
  different.
\<close>

fun wellFormed :: "'n json \<Rightarrow> bool"
  and wellFormedMap :: "(string \<times> 'n json) list \<Rightarrow> bool"
  and wellFormedSlice :: "'n json list \<Rightarrow> bool"
where
  "wellFormed (JObject m) = wellFormedMap m"
| "wellFormed (JArray slice) = wellFormedSlice slice"
| "wellFormed (JString x) = True"
| "wellFormed (JNumber n) = True"
| "wellFormed (JBool b) = True"
| "wellFormed JNull = True"
| "wellFormedMap [] = True"
| "wellFormedMap ((k, v) # rest) = (k \<notin> set (map fst rest) \<and> wellFormed v \<and> wellFormedMap rest)"
| "wellFormedSlice [] = True"
| "wellFormedSlice (v # rest) = (wellFormed v \<and> wellFormedSlice rest)"

section \<open>The trees in a store\<close>

text \<open>
  A Go map and a Go slice are references: \<^verbatim>\<open>m[k] = ...\<close> and \<^verbatim>\<open>slice[k] = ...\<close> write into
  storage that every holder of the map or slice sees. The trees above are the contents of
  that storage when nothing is shared, which is what the decoder produces. To say which
  storage a traversal writes, the same functions are given once more over an explicit
  store: a map value and a slice value hold the address of a cell, and the cell holds the
  entries or the elements. A string, a number, a bool and nil are plain values.
\<close>

type_synonym addr = nat

datatype 'n hvalue =
    HString string
  | HNumber 'n
  | HBool bool
  | HNull
  | HSlice addr
  | HMap addr

datatype 'n cell = Elements "'n hvalue list" | Entries "(string \<times> 'n hvalue) list"

type_synonym 'n store = "addr \<Rightarrow> 'n cell option"

definition elementsAt :: "'n store \<Rightarrow> addr \<Rightarrow> 'n hvalue list" where
  "elementsAt h a = (case h a of Some (Elements xs) \<Rightarrow> xs | _ \<Rightarrow> [])"

definition entriesAt :: "'n store \<Rightarrow> addr \<Rightarrow> (string \<times> 'n hvalue) list" where
  "entriesAt h a = (case h a of Some (Entries m) \<Rightarrow> m | _ \<Rightarrow> [])"

text \<open>The assignment \<^verbatim>\<open>m[k] = v\<close>: it replaces the entry of \<open>k\<close>, or adds one.\<close>

fun assign :: "(string \<times> 'v) list \<Rightarrow> string \<Rightarrow> 'v \<Rightarrow> (string \<times> 'v) list" where
  "assign [] k v = [(k, v)]"
| "assign ((k', v') # m) k v = (if k' = k then (k, v) # m else (k', v') # assign m k v)"

text \<open>The resolver reads the specification from the store and returns no store.\<close>

fun getFilterCommandRecS :: "string list \<Rightarrow> 'n hvalue \<Rightarrow> 'n store \<Rightarrow> 'n hvalue option" where
  "getFilterCommandRecS [] filters h = Some filters"
| "getFilterCommandRecS (k # keys) filters h =
     (let key = Trim k [CHR 0x27] in
      case filters of
        HString c \<Rightarrow> Some filters
      | HMap a \<Rightarrow>
          (case map_of (entriesAt h a) key of
             Some v \<Rightarrow> getFilterCommandRecS keys v h
           | None \<Rightarrow> None)
      | HSlice a \<Rightarrow>
          (let s = elementsAt h a in
           if length s = 1 then getFilterCommandRecS keys (s ! 0) h
           else
             (case ParseInt32 key of
                Some i \<Rightarrow>
                  (if i < int (length s) \<and> i \<ge> 0 then getFilterCommandRecS keys (s ! nat i) h
                   else None)
              | None \<Rightarrow> None))
      | _ \<Rightarrow> None)"

definition getFilterCommandS :: "string \<Rightarrow> 'n hvalue \<Rightarrow> 'n store \<Rightarrow> string option" where
  "getFilterCommandS path filters h =
     (let keys = FieldsFunc path isBracket in
      case getFilterCommandRecS keys filters h of
        Some (HString command) \<Rightarrow> Some command
      | _ \<Rightarrow> None)"

definition doRunFilterS ::
  "'s FilterRunner \<Rightarrow> string \<Rightarrow> string \<Rightarrow> 'n hvalue \<Rightarrow> 's FilterRunner option \<Rightarrow> 'n store \<Rightarrow> 's \<Rightarrow>
     (string \<times> error option) \<times> 's" where
  "doRunFilterS commandLine path v filters filterRunner h s =
     (case getFilterCommandS path filters h of
        Some command \<Rightarrow>
          (case filterRunner of
             None \<Rightarrow> commandLine command v s
           | Some run \<Rightarrow> run command v s)
      | None \<Rightarrow> ((v, None), s))"

text \<open>
  The traversal over the store. A visitor reads the store and, like the closure that
  \<^verbatim>\<open>doFilter\<close> passes, writes nothing to it. The store may hold a cycle, on which the Go
  code recurses without end: the first argument bounds the depth of the recursion, and
  \<open>None\<close> says that the bound was reached. A \<^verbatim>\<open>range\<close> loop fixes the keys (the indexes) when
  it starts and reads each value when it comes to it.
\<close>

type_synonym ('n, 's) storeVisitor =
  "string \<Rightarrow> string \<Rightarrow> 'n store \<Rightarrow> 's \<Rightarrow> (string \<times> error option) \<times> 's"

fun traverseWithPathS ::
    "nat \<Rightarrow> 'n hvalue \<Rightarrow> string \<Rightarrow> ('n, 's) storeVisitor \<Rightarrow> 'n store \<Rightarrow> 's \<Rightarrow>
       (('n hvalue \<times> error option) \<times> 'n store \<times> 's) option"
  and traverseMapS ::
    "nat \<Rightarrow> addr \<Rightarrow> string list \<Rightarrow> string \<Rightarrow> ('n, 's) storeVisitor \<Rightarrow> 'n store \<Rightarrow> 's \<Rightarrow>
       (error option \<times> 'n store \<times> 's) option"
  and traverseSliceS ::
    "nat \<Rightarrow> addr \<Rightarrow> nat list \<Rightarrow> string \<Rightarrow> ('n, 's) storeVisitor \<Rightarrow> 'n store \<Rightarrow> 's \<Rightarrow>
       (error option \<times> 'n store \<times> 's) option"
where
  "traverseWithPathS 0 v path visit h s = None"
| "traverseWithPathS (Suc n) (HString x) path visit h s =
     (case visit path x h s of ((r, err), s') \<Rightarrow> Some ((HString r, err), h, s'))"
| "traverseWithPathS (Suc n) (HMap a) path visit h s =
     (case traverseMapS n a (map fst (entriesAt h a)) path visit h s of
        None \<Rightarrow> None
      | Some (err, h', s') \<Rightarrow> Some ((HMap a, err), h', s'))"
| "traverseWithPathS (Suc n) (HSlice a) path visit h s =
     (case traverseSliceS n a [0..<length (elementsAt h a)] path visit h s of
        None \<Rightarrow> None
      | Some (err, h', s') \<Rightarrow> Some ((HSlice a, err), h', s'))"
| "traverseWithPathS (Suc n) (HNumber x) path visit h s = Some ((HNumber x, None), h, s)"
| "traverseWithPathS (Suc n) (HBool b) path visit h s = Some ((HBool b, None), h, s)"
| "traverseWithPathS (Suc n) HNull path visit h s = Some ((HNull, None), h, s)"
| "traverseMapS n a [] path visit h s = Some (None, h, s)"
| "traverseMapS n a (k # ks) path visit h s =
     (case map_of (entriesAt h a) k of
        None \<Rightarrow> traverseMapS n a ks path visit h s
      | Some v \<Rightarrow>
          (case traverseWithPathS n v (path @ ''['' @ [CHR 0x27] @ k @ [CHR 0x27] @ '']'') visit h s of
             None \<Rightarrow> None
           | Some ((v', err), h', s') \<Rightarrow>
               (let h'' = h'(a \<mapsto> Entries (assign (entriesAt h' a) k v')) in
                if err \<noteq> None then Some (err, h'', s')
                else traverseMapS n a ks path visit h'' s')))"
| "traverseSliceS n a [] path visit h s = Some (None, h, s)"
| "traverseSliceS n a (i # is) path visit h s =
     (if i < length (elementsAt h a) then
        (case traverseWithPathS n (elementsAt h a ! i) (path @ ''['' @ decimal i @ '']'') visit h s of
           None \<Rightarrow> None
         | Some ((v', err), h', s') \<Rightarrow>
             (let h'' = h'(a \<mapsto> Elements ((elementsAt h' a)[i := v'])) in
              if err \<noteq> None then Some (err, h'', s')
              else traverseSliceS n a is path visit h'' s'))
      else traverseSliceS n a is path visit h s)"

text \<open>
  The addresses a value and a cell hold, and the sets of addresses that contain whatever
  their cells hold: the cells of a tree form such a set.
\<close>

fun valueRefs :: "'n hvalue \<Rightarrow> addr set" where
  "valueRefs (HSlice a) = {a}"
| "valueRefs (HMap a) = {a}"
| "valueRefs v = {}"

fun cellRefs :: "'n cell option \<Rightarrow> addr set" where
  "cellRefs None = {}"
| "cellRefs (Some (Elements xs)) = (\<Union>v\<in>set xs. valueRefs v)"
| "cellRefs (Some (Entries m)) = (\<Union>(k, v)\<in>set m. valueRefs v)"

definition closed :: "'n store \<Rightarrow> addr set \<Rightarrow> bool" where
  "closed h A = (\<forall>a\<in>A. cellRefs (h a) \<subseteq> A)"

text \<open>The tree that a value stands for in a store, to a given depth.\<close>

fun treeOf :: "nat \<Rightarrow> 'n store \<Rightarrow> 'n hvalue \<Rightarrow> 'n json option" where
  "treeOf 0 h v = None"
| "treeOf (Suc n) h (HString x) = Some (JString x)"
| "treeOf (Suc n) h (HNumber x) = Some (JNumber x)"
| "treeOf (Suc n) h (HBool b) = Some (JBool b)"
| "treeOf (Suc n) h HNull = Some JNull"
| "treeOf (Suc n) h (HSlice a) =
     map_option JArray (those (map (treeOf n h) (elementsAt h a)))"
| "treeOf (Suc n) h (HMap a) =
     map_option JObject
       (those (map (\<lambda>(k, v). map_option (Pair k) (treeOf n h v)) (entriesAt h a)))"

text \<open>
  For the examples: a world in which no file can be opened and the decoder finds its
  input empty, and a command line on which no command can be started.
\<close>

definition bareWorld :: "'n world" where
  "bareWorld =
     \<lparr>openFile = (\<lambda>name. Inl (Error ''no such file'')),
      decode = (\<lambda>text. (JNull, Some EOF))\<rparr>"

definition noCommand :: "'s FilterRunner" where
  "noCommand c v s = (([], Some (Error ''not found'')), s)"

section \<open>Properties of the library functions\<close>

lemma fieldsFrom_field:
  "\<forall>c\<in>set w. \<not> f c \<Longrightarrow> fieldsFrom f cur (w @ rest) = fieldsFrom f (cur @ w) rest"
  by (induction w arbitrary: cur) auto

lemma fieldsFrom_close:
  "f c \<Longrightarrow> cur \<noteq> [] \<Longrightarrow> fieldsFrom f cur (c # rest) = cur # fieldsFrom f [] rest"
  by simp

lemma FieldsFunc_segment:
  assumes "w \<noteq> []" and "\<forall>c\<in>set w. \<not> isBracket c"
  shows "FieldsFunc (''['' @ w @ '']'' @ rest) isBracket = w # FieldsFunc rest isBracket"
proof -
  have "fieldsFrom isBracket [] (w @ CHR '']'' # rest) = fieldsFrom isBracket w (CHR '']'' # rest)"
    using fieldsFrom_field [OF assms(2), of "[]" "CHR '']'' # rest"] by simp
  then show ?thesis using assms(1) by (simp add: FieldsFunc_def isBracket_def)
qed

lemma isDigit_char_of: "d < 10 \<Longrightarrow> isDigit (char_of (48 + d :: nat))"
  by (simp add: isDigit_def)

lemma of_char_digit: "d < 10 \<Longrightarrow> (of_char (char_of (48 + d :: nat)) :: nat) = 48 + d"
  by simp

lemma decimal_digits: "list_all isDigit (decimal n)"
proof (induction n rule: decimal.induct)
  case (1 n)
  show ?case
  proof (cases "n < 10")
    case True
    then show ?thesis by (simp add: decimal.simps [of n] isDigit_char_of)
  next
    case False
    then show ?thesis using 1 by (simp add: decimal.simps [of n] isDigit_char_of)
  qed
qed

lemma decimal_not_Nil: "decimal n \<noteq> []"
  by (simp add: decimal.simps [of n])

lemma digitsValue_snoc: "digitsValue (ds @ [c]) = 10 * digitsValue ds + ((of_char c :: nat) - 48)"
  by (simp add: digitsValue_def)

lemma digitsValue_decimal: "digitsValue (decimal n) = n"
proof (induction n rule: decimal.induct)
  case (1 n)
  show ?case
  proof (cases "n < 10")
    case True
    then show ?thesis by (simp add: decimal.simps [of n] digitsValue_def)
  next
    case False
    then have "digitsValue (decimal (n div 10)) = n div 10" using 1 by simp
    then show ?thesis using False
      by (simp add: decimal.simps [of n] digitsValue_snoc)
  qed
qed

lemma isDigit_plain:
  "isDigit c \<Longrightarrow> \<not> isBracket c \<and> c \<noteq> CHR 0x27 \<and> c \<noteq> CHR ''+'' \<and> c \<noteq> CHR ''-''"
  by (auto simp: isDigit_def isBracket_def)

lemma parseDigits_decimal: "parseDigits (decimal n) = Some n"
  by (simp add: parseDigits_def decimal_digits decimal_not_Nil digitsValue_decimal)

lemma ParseInt32_decimal:
  "ParseInt32 (decimal n) = (if n < 2 ^ 31 then Some (int n) else None)"
proof -
  obtain c cs where d: "decimal n = c # cs"
    using decimal_not_Nil [of n] by (cases "decimal n") auto
  have "isDigit c" using decimal_digits [of n] d by simp
  then have "c \<noteq> CHR ''+''" "c \<noteq> CHR ''-''" using isDigit_plain by blast+
  moreover have "parseDigits (c # cs) = Some n" using parseDigits_decimal [of n] d by simp
  ultimately have "ParseInt32 (c # cs) = (if inInt32 (int n) then Some (int n) else None)"
    by simp
  moreover have "inInt32 (int n) = (n < 2 ^ 31)"
    by (auto simp: inInt32_def)
  ultimately show ?thesis using d by simp
qed

lemma Trim_plain:
  "s = [] \<or> (hd s \<notin> set cutset \<and> last s \<notin> set cutset) \<Longrightarrow> Trim s cutset = s"
proof (cases "s = []")
  case True
  then show ?thesis by (simp add: Trim_def)
next
  case False
  assume "s = [] \<or> (hd s \<notin> set cutset \<and> last s \<notin> set cutset)"
  with False have h: "hd s \<notin> set cutset" and l: "last s \<notin> set cutset" by simp_all
  have "dropWhile (\<lambda>c. c \<in> set cutset) s = s"
    using h by (simp add: dropWhile_eq_self_iff)
  moreover have "dropWhile (\<lambda>c. c \<in> set cutset) (rev s) = rev s"
    using l False by (simp add: dropWhile_eq_self_iff hd_rev)
  ultimately show ?thesis by (simp add: Trim_def)
qed

lemma Trim_decimal: "Trim (decimal n) [CHR 0x27] = decimal n"
proof -
  have "\<forall>c\<in>set (decimal n). c \<noteq> CHR 0x27"
    using decimal_digits [of n] isDigit_plain by (auto simp: list_all_iff)
  then have "hd (decimal n) \<noteq> CHR 0x27 \<and> last (decimal n) \<noteq> CHR 0x27"
    using decimal_not_Nil [of n] hd_in_set last_in_set by blast
  then show ?thesis by (intro Trim_plain) simp
qed

lemma decimal_no_bracket: "\<forall>c\<in>set (decimal n). \<not> isBracket c"
  using decimal_digits [of n] isDigit_plain by (auto simp: list_all_iff)

section \<open>Properties of the resolver\<close>

lemma dropWhile_all: "\<forall>c\<in>set k. P c \<Longrightarrow> dropWhile P (k @ r) = dropWhile P r"
  by (induction k) auto

lemma Trim_quoted: "Trim ([q] @ k @ [q]) [q] = Trim k [q]"
proof (cases "\<forall>c\<in>set k. c = q")
  case True
  have a: "dropWhile (\<lambda>c. c = q) (k @ []) = []"
    using dropWhile_all [of k "\<lambda>c. c = q" "[]"] True by simp
  have b: "dropWhile (\<lambda>c. c = q) (k @ [q]) = []"
    using dropWhile_all [of k "\<lambda>c. c = q" "[q]"] True by simp
  from a have a': "dropWhile (\<lambda>c. c = q) k = []" by (simp only: append_Nil2)
  show ?thesis by (simp add: Trim_def a' b)
next
  case False
  then have "dropWhile (\<lambda>c. c = q) (k @ [q]) = dropWhile (\<lambda>c. c = q) k @ [q]"
    by (auto simp: dropWhile_append)
  then show ?thesis by (simp add: Trim_def)
qed

lemma FieldsFunc_Index:
  "FieldsFunc (segmentString (Index i) @ rest) isBracket = decimal i # FieldsFunc rest isBracket"
  using FieldsFunc_segment [OF decimal_not_Nil decimal_no_bracket, of i rest] by simp

lemma FieldsFunc_Key:
  assumes "\<forall>c\<in>set k. \<not> isBracket c"
  shows "FieldsFunc (segmentString (Key k) @ rest) isBracket =
           ([CHR 0x27] @ k @ [CHR 0x27]) # FieldsFunc rest isBracket"
proof -
  have "\<forall>c\<in>set ([CHR 0x27] @ k @ [CHR 0x27]). \<not> isBracket c"
    using assms by (simp add: isBracket_def)
  from FieldsFunc_segment [OF _ this, of rest] show ?thesis by simp
qed

lemma pathString_Cons: "pathString (seg # p) = segmentString seg @ pathString p"
  by (simp add: pathString_def)

lemma pathString_snoc: "pathString (p @ [seg]) = pathString p @ segmentString seg"
  by (simp add: pathString_def)

lemma getFilterCommandRec_String: "getFilterCommandRec keys (JString c) = Some (JString c)"
  by (cases keys) simp_all

lemma getFilterCommand_String: "getFilterCommand path (JString c) = Some c"
  by (simp add: getFilterCommand_def getFilterCommandRec_String)

lemma reaches_same_result:
  "reaches keys filters keys' filters' \<Longrightarrow>
     getFilterCommandRec keys filters = getFilterCommandRec keys' filters'"
  by (induction rule: reaches.induct) simp_all

lemma getFilterCommandRec_single:
  "getFilterCommandRec (k # keys) (JArray [x]) = getFilterCommandRec keys x"
  by simp

lemma getFilterCommandRec_indexed:
  "length s \<noteq> 1 \<Longrightarrow> getFilterCommandRec (decimal i # keys) (JArray s) =
     (if i < length s \<and> i < 2 ^ 31 then getFilterCommandRec keys (s ! i) else None)"
  by (simp add: Trim_decimal ParseInt32_decimal)

lemma getFilterCommand_Index_single:
  "getFilterCommand (segmentString (Index i) @ rest) (JArray [x]) = getFilterCommand rest x"
  by (simp only: getFilterCommand_def FieldsFunc_Index getFilterCommandRec_single Let_def)

lemma getFilterCommand_Index_indexed:
  "length s \<noteq> 1 \<Longrightarrow> getFilterCommand (segmentString (Index i) @ rest) (JArray s) =
     (if i < length s \<and> i < 2 ^ 31 then getFilterCommand rest (s ! i) else None)"
  by (simp add: getFilterCommand_def FieldsFunc_Index getFilterCommandRec_indexed
      del: getFilterCommandRec.simps segmentString.simps)

lemma getFilterCommandRec_only_indexed:
  assumes "length s \<noteq> 1" and "getFilterCommandRec (k # keys) (JArray s) = Some r"
  shows "\<exists>i. ParseInt32 (Trim k [CHR 0x27]) = Some i \<and> 0 \<le> i \<and> i < int (length s) \<and>
           getFilterCommandRec keys (s ! nat i) = Some r"
  using assms by (auto split: option.splits if_splits)

lemma decimal_small:
  "decimal 0 = ''0''" "decimal (Suc 0) = ''1''" "decimal 1 = ''1''" "decimal 2 = ''2''"
  "decimal (Suc (Suc 0)) = ''2''" "decimal 3 = ''3''"
  by code_simp+

lemmas evaluation =
  traverse_def getFilterCommand_def FieldsFunc_def isBracket_def Trim_def decimal_small
  parseDigits_def isDigit_def digitsValue_def inInt32_def pathString_def

lemma FieldsFunc_Nil: "FieldsFunc [] f = []"
  by (simp add: FieldsFunc_def)

section \<open>Claims about the resolver\<close>

text \<open>
  Claim C1. Whenever resolution reaches a String node of the specification, the result is
  found, with that string as the command, whatever is left of the path; in particular a
  specification that is a single String matches every path, the empty one included. The
  first conjunct is the single-String case for an arbitrary path string, the second the
  general one: if the calls of the resolver on the path's fields lead to a String node
  \<open>c\<close> with any keys \<open>keys'\<close> still unconsumed, the command found is \<open>c\<close>.
\<close>
theorem string_node_is_the_command:
  "getFilterCommand path (JString c) = Some c \<and>
   (reaches (FieldsFunc path isBracket) filters keys' (JString c) \<longrightarrow>
      getFilterCommand path filters = Some c)"
proof (intro conjI impI)
  show "getFilterCommand path (JString c) = Some c" by (rule getFilterCommand_String)
next
  assume "reaches (FieldsFunc path isBracket) filters keys' (JString c)"
  then have "getFilterCommandRec (FieldsFunc path isBracket) filters = Some (JString c)"
    by (simp add: reaches_same_result getFilterCommandRec_String)
  then show "getFilterCommand path filters = Some c" by (simp add: getFilterCommand_def)
qed

theorem string_node_is_the_command_witness:
  "reaches (FieldsFunc (pathString [Key ''a'', Key ''b'', Index 3]) isBracket)
     (JObject [(''a'', JString ''upper'')] :: int json) [[CHR 0x27, CHR ''b'', CHR 0x27], ''3''] (JString ''upper'') \<and>
   getFilterCommand (pathString [Key ''a'', Key ''b'', Index 3])
     (JObject [(''a'', JString ''upper'')] :: int json) = Some ''upper'' \<and>
   getFilterCommand (pathString [Key ''a'', Key ''b'', Index 3]) (JString ''upper'' :: int json) = Some ''upper''"
proof -
  have f: "FieldsFunc (pathString [Key ''a'', Key ''b'', Index 3]) isBracket =
      [[CHR 0x27, CHR ''a'', CHR 0x27], [CHR 0x27, CHR ''b'', CHR 0x27], ''3'']"
    by (simp add: pathString_def FieldsFunc_def isBracket_def decimal_small)
  have t: "Trim [CHR 0x27, CHR ''a'', CHR 0x27] [CHR 0x27] = ''a''"
    by (simp add: Trim_def)
  have r: "reaches (FieldsFunc (pathString [Key ''a'', Key ''b'', Index 3]) isBracket)
     (JObject [(''a'', JString ''upper'')] :: int json) [[CHR 0x27, CHR ''b'', CHR 0x27], ''3''] (JString ''upper'')"
    unfolding f by (rule reaches.object [where v = "JString ''upper''"]) (simp_all add: t reaches.here)
  from r string_node_is_the_command
    [of "pathString [Key ''a'', Key ''b'', Index 3]" "''upper''"
        "JObject [(''a'', JString ''upper'')] :: int json" "[[CHR 0x27, CHR ''b'', CHR 0x27], ''3'']"]
  show ?thesis by blast
qed

lemma doRunFilter_succeeding:
  "doRunFilter cl path v filters (Some (succeeding f)) s =
     (case getFilterCommand path filters of
        Some command \<Rightarrow> ((f command v, None), s) | None \<Rightarrow> ((v, None), s))"
  by (simp add: doRunFilter_def succeeding_def split: option.splits)

text \<open>
  Claim C3. At a specification array of length one, resolution consumes the next Index
  segment without looking at its number and goes on in the sole element; so with the
  specification \<open>{"a": [CMD]}\<close> every element \<open>a[i]\<close> resolves to CMD, and in the data
  \<open>{"a": ["x","y","z"]}\<close> all three elements are filtered with CMD.
\<close>
theorem single_element_array_broadcasts:
  "getFilterCommand (pathString (Index i # rest)) (JArray [x]) = getFilterCommand (pathString rest) x \<and>
   getFilterCommand (pathString [Key ''a'', Index i]) (JObject [(''a'', JArray [JString cmd])]) = Some cmd \<and>
   traverse (JObject [(''a'', JArray [JString ''x'', JString ''y'', JString ''z''])])
     (\<lambda>path v. doRunFilter cl path v (JObject [(''a'', JArray [JString cmd])]) (Some (succeeding f))) s =
     ((JObject [(''a'', JArray [JString (f cmd ''x''), JString (f cmd ''y''), JString (f cmd ''z'')])], None), s)"
proof (intro conjI)
  show "getFilterCommand (pathString (Index i # rest)) (JArray [x]) = getFilterCommand (pathString rest) x"
    by (simp only: pathString_Cons getFilterCommand_Index_single)
next
  have k: "FieldsFunc (segmentString (Key ''a'') @ r) isBracket =
      [CHR 0x27, CHR ''a'', CHR 0x27] # FieldsFunc r isBracket" for r
    using FieldsFunc_Key [of "''a''" r] by (simp add: isBracket_def)
  have a: "getFilterCommand (segmentString (Key ''a'') @ segmentString (Index j))
     (JObject [(''a'', JArray [JString cmd])]) = Some cmd" for j
    using FieldsFunc_Index [of j "[]"]
    by (simp add: getFilterCommand_def k Trim_def FieldsFunc_Nil del: segmentString.simps)
  show "getFilterCommand (pathString [Key ''a'', Index i]) (JObject [(''a'', JArray [JString cmd])]) = Some cmd"
    using a [of i] by (simp add: pathString_def del: segmentString.simps)
  show "traverse (JObject [(''a'', JArray [JString ''x'', JString ''y'', JString ''z''])])
     (\<lambda>path v. doRunFilter cl path v (JObject [(''a'', JArray [JString cmd])]) (Some (succeeding f))) s =
     ((JObject [(''a'', JArray [JString (f cmd ''x''), JString (f cmd ''y''), JString (f cmd ''z'')])], None), s)"
    by (simp add: evaluation doRunFilter_succeeding)
qed

text \<open>
  Claim C9. At a specification array of length one, resolution consumes the next segment
  and goes on in the sole element also when the segment is an object key: the branch never
  looks at the key. It holds for every field the path is split into, hence for every
  \<open>Key\<close> segment that is one field (a key without brackets); with the specification
  \<open>{"a": [CMD]}\<close> and the data \<open>{"a": {"k": "v"}}\<close> the leaf at \<open>a.k\<close> is filtered with
  CMD.
\<close>
theorem single_element_array_consumes_a_key:
  "getFilterCommandRec (k # keys) (JArray [x]) = getFilterCommandRec keys x \<and>
   ((\<forall>c\<in>set k. \<not> isBracket c) \<longrightarrow>
      getFilterCommand (pathString (Key k # rest)) (JArray [x]) = getFilterCommand (pathString rest) x) \<and>
   getFilterCommand (pathString [Key ''a'', Key ''k'']) (JObject [(''a'', JArray [JString cmd])]) = Some cmd \<and>
   traverse (JObject [(''a'', JObject [(''k'', JString ''v'')])])
     (\<lambda>path v. doRunFilter cl path v (JObject [(''a'', JArray [JString cmd])]) (Some (succeeding f))) s =
     ((JObject [(''a'', JObject [(''k'', JString (f cmd ''v''))])], None), s)"
proof (intro conjI impI)
  show "getFilterCommandRec (k # keys) (JArray [x]) = getFilterCommandRec keys x"
    by (rule getFilterCommandRec_single)
next
  assume "\<forall>c\<in>set k. \<not> isBracket c"
  then show "getFilterCommand (pathString (Key k # rest)) (JArray [x]) = getFilterCommand (pathString rest) x"
    by (simp only: pathString_Cons getFilterCommand_def FieldsFunc_Key getFilterCommandRec_single Let_def)
next
  show "getFilterCommand (pathString [Key ''a'', Key ''k'']) (JObject [(''a'', JArray [JString cmd])]) = Some cmd"
    by (simp add: evaluation)
next
  show "traverse (JObject [(''a'', JObject [(''k'', JString ''v'')])])
     (\<lambda>path v. doRunFilter cl path v (JObject [(''a'', JArray [JString cmd])]) (Some (succeeding f))) s =
     ((JObject [(''a'', JObject [(''k'', JString (f cmd ''v''))])], None), s)"
    by (simp add: evaluation doRunFilter_succeeding)
qed

theorem single_element_array_consumes_a_key_witness:
  "\<not> isBracket (CHR ''k'') \<and>
   getFilterCommand (pathString (Key ''k'' # [Index 0])) (JArray [JArray [JString ''upper'']] :: int json) =
     getFilterCommand (pathString [Index 0]) (JArray [JString ''upper''] :: int json) \<and>
   getFilterCommand (pathString (Key ''k'' # [Index 0])) (JArray [JArray [JString ''upper'']] :: int json) =
     Some ''upper''"
proof -
  have h: "\<forall>c\<in>set ''k''. \<not> isBracket c" by (simp add: isBracket_def)
  have e: "getFilterCommand (pathString [Index 0]) (JArray [JString ''upper''] :: int json) = Some ''upper''"
    by (simp add: evaluation)
  have "getFilterCommand (pathString (Key ''k'' # [Index 0])) (JArray [JArray [JString ''upper'']] :: int json) =
     getFilterCommand (pathString [Index 0]) (JArray [JString ''upper''] :: int json)"
    using single_element_array_consumes_a_key
      [of "''k''" "[]" "JArray [JString ''upper''] :: int json" "[Index 0]" "''c''" noCommand "\<lambda>c v. v" "()"] h
    by blast
  with h e show ?thesis by simp
qed

text \<open>
  Claim C10. The encoding of paths is not injective: the path string is split again at
  \<open>[\<close> and \<open>]\<close>, so a key containing them is seen as several segments. The one-segment
  path with the key \<open>'\<close>\<open>]\<close>\<open>[\<close>\<open>'\<close>\<open>b\<close> and the two-segment path \<open>Key ""\<close>, \<open>Key "b"\<close>
  have the same string, the resolver splits it into the two fields \<open>''\<close> and \<open>'b'\<close>, and
  with the specification \<open>{"": {"b": CMD}}\<close> the only leaf of the data is filtered with
  CMD.
\<close>
theorem path_encoding_is_not_injective:
  "[Key [CHR 0x27, CHR '']'', CHR ''['', CHR 0x27, CHR ''b'']] \<noteq> [Key '''', Key ''b''] \<and>
   pathString [Key [CHR 0x27, CHR '']'', CHR ''['', CHR 0x27, CHR ''b'']] = pathString [Key '''', Key ''b''] \<and>
   FieldsFunc (pathString [Key [CHR 0x27, CHR '']'', CHR ''['', CHR 0x27, CHR ''b'']]) isBracket =
     [[CHR 0x27, CHR 0x27], [CHR 0x27, CHR ''b'', CHR 0x27]] \<and>
   traverse (JObject [([CHR 0x27, CHR '']'', CHR ''['', CHR 0x27, CHR ''b''], JString ''v'')])
     (\<lambda>path v. doRunFilter cl path v (JObject [('''', JObject [(''b'', JString cmd)])]) (Some (succeeding f))) s =
     ((JObject [([CHR 0x27, CHR '']'', CHR ''['', CHR 0x27, CHR ''b''], JString (f cmd ''v''))], None), s)"
  by (simp add: evaluation doRunFilter_succeeding)

text \<open>
  Claim C2, as stated: at a specification array of length greater than one, resolution
  succeeds only when the next segment is an \<open>Index\<close>, a position in an array of the data.
  It fails for an object key that reads as a number: the segment \<open>Key "1"\<close> is no
  \<open>Index\<close>, and it resolves into element 1 of the array \<open>[c0, c1]\<close>.
\<close>

theorem numeric_key_matches_indexed_array:
  "1 < length [JString ''c0'', JString ''c1'' :: int json] \<and>
   \<not> is_Index (Key ''1'') \<and>
   getFilterCommand (pathString [Key ''1'']) (JArray [JString ''c0'', JString ''c1''] :: int json) = Some ''c1'' \<and>
   getFilterCommand (pathString [Key ''a'', Key ''1''])
     (JObject [(''a'', JArray [JString ''c0'', JString ''c1''])] :: int json) = Some ''c1''"
  by (simp add: evaluation)







text \<open>
  Claim C2, amended. At a specification array of length greater than one, the resolver
  looks only at the next field of the re-split path string, without its apostrophes: it
  goes on, in the element at exactly that index, if and only if the field parses as a
  decimal 32-bit integer that is an index into the array, and otherwise there is no
  match. An \<open>Index\<close> segment \<open>i\<close> is such a field: it resolves into element \<open>i\<close> when
  \<open>i\<close> is in bounds (and below \<open>2^31\<close>) and yields no match otherwise. A \<open>Key\<close> segment
  without brackets is one field as well and is treated by the same rule on its text, so
  a key that reads as an index in bounds resolves into that element. With the
  specification \<open>{"a": [CMD0, CMD1]}\<close> and the data \<open>{"a": ["p","q","r"]}\<close>, element 0 is
  filtered with CMD0, element 1 with CMD1, and element 2 is left as it is.
\<close>

theorem indexed_array_resolution:
  assumes "1 < length sl"
  shows "(getFilterCommandRec (k # keys) (JArray sl) = Some r \<longrightarrow>
            (\<exists>i. ParseInt32 (Trim k [CHR 0x27]) = Some i \<and> 0 \<le> i \<and> i < int (length sl) \<and>
                 getFilterCommandRec keys (sl ! nat i) = Some r)) \<and>
         getFilterCommandRec (k # keys) (JArray sl) =
           (case ParseInt32 (Trim k [CHR 0x27]) of
              None \<Rightarrow> None
            | Some i \<Rightarrow> if 0 \<le> i \<and> i < int (length sl)
                        then getFilterCommandRec keys (sl ! nat i) else None) \<and>
         getFilterCommand (pathString (Index i # rest)) (JArray sl) =
           (if i < length sl \<and> i < 2 ^ 31 then getFilterCommand (pathString rest) (sl ! i) else None) \<and>
         ((\<forall>c\<in>set key. \<not> isBracket c) \<longrightarrow>
            getFilterCommand (pathString (Key key # rest)) (JArray sl) =
              (case ParseInt32 (Trim key [CHR 0x27]) of
                 None \<Rightarrow> None
               | Some i \<Rightarrow> if 0 \<le> i \<and> i < int (length sl)
                           then getFilterCommand (pathString rest) (sl ! nat i) else None)) \<and>
         traverse (JObject [(''a'', JArray [JString ''p'', JString ''q'', JString ''r''])])
           (\<lambda>path v. doRunFilter cl path v (JObject [(''a'', JArray [JString cmd0, JString cmd1])])
              (Some (succeeding f))) s =
           ((JObject [(''a'', JArray [JString (f cmd0 ''p''), JString (f cmd1 ''q''), JString ''r''])], None), s)"
proof (intro conjI impI)
  assume "getFilterCommandRec (k # keys) (JArray sl) = Some r"
  with assms show "\<exists>i. ParseInt32 (Trim k [CHR 0x27]) = Some i \<and> 0 \<le> i \<and> i < int (length sl) \<and>
                 getFilterCommandRec keys (sl ! nat i) = Some r"
    by (intro getFilterCommandRec_only_indexed) simp_all
next
  from assms have ne: "length sl \<noteq> 1" by simp
  then show "getFilterCommandRec (k # keys) (JArray sl) =
           (case ParseInt32 (Trim k [CHR 0x27]) of
              None \<Rightarrow> None
            | Some i \<Rightarrow> if 0 \<le> i \<and> i < int (length sl)
                        then getFilterCommandRec keys (sl ! nat i) else None)"
    by (auto split: option.splits)
next
  from assms have "length sl \<noteq> 1" by simp
  then show "getFilterCommand (pathString (Index i # rest)) (JArray sl) =
           (if i < length sl \<and> i < 2 ^ 31 then getFilterCommand (pathString rest) (sl ! i) else None)"
    by (simp add: pathString_Cons getFilterCommand_Index_indexed del: segmentString.simps)
next
  assume nb: "\<forall>c\<in>set key. \<not> isBracket c"
  from assms have ne: "length sl \<noteq> 1" by simp
  have t: "Trim (CHR 0x27 # key @ [CHR 0x27]) [CHR 0x27] = Trim key [CHR 0x27]"
    using Trim_quoted [of "CHR 0x27" key] by simp
  have "getFilterCommandRec (([CHR 0x27] @ key @ [CHR 0x27]) # ks) (JArray sl) =
      (case ParseInt32 (Trim key [CHR 0x27]) of
         None \<Rightarrow> None
       | Some i \<Rightarrow> if 0 \<le> i \<and> i < int (length sl)
                   then getFilterCommandRec ks (sl ! nat i) else None)" for ks
    using ne by (auto simp: t split: option.splits)
  then show "getFilterCommand (pathString (Key key # rest)) (JArray sl) =
              (case ParseInt32 (Trim key [CHR 0x27]) of
                 None \<Rightarrow> None
               | Some i \<Rightarrow> if 0 \<le> i \<and> i < int (length sl)
                           then getFilterCommand (pathString rest) (sl ! nat i) else None)"
    by (simp add: pathString_Cons getFilterCommand_def FieldsFunc_Key [OF nb] Let_def
        del: segmentString.simps getFilterCommandRec.simps split: option.splits)
next
  show "traverse (JObject [(''a'', JArray [JString ''p'', JString ''q'', JString ''r''])])
           (\<lambda>path v. doRunFilter cl path v (JObject [(''a'', JArray [JString cmd0, JString cmd1])])
              (Some (succeeding f))) s =
           ((JObject [(''a'', JArray [JString (f cmd0 ''p''), JString (f cmd1 ''q''), JString ''r''])], None), s)"
    by (simp add: evaluation doRunFilter_succeeding)
qed

theorem indexed_array_resolution_witness:
  "1 < length [JString ''c0'', JString ''c1'' :: int json] \<and>
   getFilterCommand (pathString [Index 1]) (JArray [JString ''c0'', JString ''c1''] :: int json) = Some ''c1'' \<and>
   getFilterCommand (pathString [Index 2]) (JArray [JString ''c0'', JString ''c1''] :: int json) = None \<and>
   \<not> isBracket (CHR ''+'') \<and> \<not> isBracket (CHR ''1'') \<and>
   getFilterCommand (pathString [Key ''+1'']) (JArray [JString ''c0'', JString ''c1''] :: int json) = Some ''c1'' \<and>
   getFilterCommand (pathString [Key ''x'']) (JArray [JString ''c0'', JString ''c1''] :: int json) = None"
proof -
  have h: "1 < length [JString ''c0'', JString ''c1'' :: int json]" by simp
  have e: "getFilterCommand (pathString []) (JString ''c1'' :: int json) = Some ''c1''"
    by (simp add: evaluation)
  have nb: "\<forall>c\<in>set ''+1''. \<not> isBracket c" "\<forall>c\<in>set ''x''. \<not> isBracket c"
    by (simp_all add: isBracket_def)
  have p: "ParseInt32 (Trim ''+1'' [CHR 0x27]) = Some 1" "ParseInt32 (Trim ''x'' [CHR 0x27]) = None"
    by (simp_all add: evaluation)
  have "getFilterCommand (pathString (Index 1 # [])) (JArray [JString ''c0'', JString ''c1''] :: int json) =
      (if 1 < length [JString ''c0'', JString ''c1'' :: int json] \<and> (1::nat) < 2 ^ 31
       then getFilterCommand (pathString []) ([JString ''c0'', JString ''c1'' :: int json] ! 1) else None)"
    using indexed_array_resolution
      [OF h, of "''1''" "[]" "JString ''c1''" 1 "[]" "''x''" noCommand "''a''" "''b''" "\<lambda>c v. v" "()"]
    by blast
  moreover have "getFilterCommand (pathString (Index 2 # [])) (JArray [JString ''c0'', JString ''c1''] :: int json) =
      (if 2 < length [JString ''c0'', JString ''c1'' :: int json] \<and> (2::nat) < 2 ^ 31
       then getFilterCommand (pathString []) ([JString ''c0'', JString ''c1'' :: int json] ! 2) else None)"
    using indexed_array_resolution
      [OF h, of "''1''" "[]" "JString ''c1''" 2 "[]" "''x''" noCommand "''a''" "''b''" "\<lambda>c v. v" "()"]
    by blast
  moreover have "getFilterCommand (pathString (Key ''+1'' # [])) (JArray [JString ''c0'', JString ''c1''] :: int json) =
      (case ParseInt32 (Trim ''+1'' [CHR 0x27]) of
         None \<Rightarrow> None
       | Some i \<Rightarrow> if 0 \<le> i \<and> i < int (length [JString ''c0'', JString ''c1'' :: int json])
                   then getFilterCommand (pathString []) ([JString ''c0'', JString ''c1'' :: int json] ! nat i)
                   else None)"
    using indexed_array_resolution
      [OF h, of "''1''" "[]" "JString ''c1''" 1 "[]" "''+1''" noCommand "''a''" "''b''" "\<lambda>c v. v" "()"] nb(1)
    by blast
  moreover have "getFilterCommand (pathString (Key ''x'' # [])) (JArray [JString ''c0'', JString ''c1''] :: int json) =
      (case ParseInt32 (Trim ''x'' [CHR 0x27]) of
         None \<Rightarrow> None
       | Some i \<Rightarrow> if 0 \<le> i \<and> i < int (length [JString ''c0'', JString ''c1'' :: int json])
                   then getFilterCommand (pathString []) ([JString ''c0'', JString ''c1'' :: int json] ! nat i)
                   else None)"
    using indexed_array_resolution
      [OF h, of "''1''" "[]" "JString ''c1''" 1 "[]" "''x''" noCommand "''a''" "''b''" "\<lambda>c v. v" "()"] nb(2)
    by blast
  ultimately show ?thesis using e p by (simp add: isBracket_def)
qed

section \<open>Properties of the traverser\<close>

lemma runVisits_append:
  "runVisits visit (xs @ ys) s =
     (case runVisits visit xs s of (None, s') \<Rightarrow> runVisits visit ys s' | (Some e, s') \<Rightarrow> (Some e, s'))"
  by (induction xs arbitrary: s) (auto split: prod.splits option.splits)

lemma traverse_runs:
  fixes v :: "'n json" and m :: "(string \<times> 'n json) list" and sl :: "'n json list"
    and visit :: "'s visitorFunc"
  shows "(case traverseWithPath v path visit s of ((v', err), s') \<Rightarrow> (err, s')) =
     runVisits visit (leaves v path) s"
  and "(case traverseMap m path visit s of ((m', err), s') \<Rightarrow> (err, s')) =
     runVisits visit (leavesMap m path) s"
  and "(case traverseSlice sl i path visit s of ((sl', err), s') \<Rightarrow> (err, s')) =
     runVisits visit (leavesSlice sl i path) s"
  by (induction v path visit s and m path visit s and sl i path visit s
      rule: traverseWithPath_traverseMap_traverseSlice.induct)
     (auto simp: runVisits_append split: prod.splits option.splits)

lemma doRunFilter_recording:
  "doRunFilter cl path x filters (Some (recording run)) (log, s) =
     (case getFilterCommand path filters of
        None \<Rightarrow> ((x, None), (log, s))
      | Some c \<Rightarrow> (case run c x s of ((r, err), s') \<Rightarrow> ((r, err), (log @ [Call c x r err], s'))))"
  by (simp add: doRunFilter_def recording_def split: option.splits)

lemma runVisits_recording:
  assumes "runVisits (\<lambda>path x. doRunFilter cl path x filters (Some (recording run))) lv (log, s) =
             (err, (log', s'))"
  shows "\<exists>new. log' = log @ new \<and>
           map (\<lambda>c. (commandOf c, valueOf c)) new = take (length new) (matched filters lv) \<and>
           (\<forall>c\<in>set (butlast new). errorOf c = None) \<and>
           (case err of
              Some e \<Rightarrow> new \<noteq> [] \<and> errorOf (last new) = Some e
            | None \<Rightarrow> length new = length (matched filters lv) \<and> (\<forall>c\<in>set new. errorOf c = None))"
  using assms
proof (induction lv arbitrary: log s)
  case Nil
  then show ?case by simp
next
  case (Cons a lv)
  obtain path x where a: "a = (path, x)" by (cases a)
  show ?case
  proof (cases "getFilterCommand path filters")
    case None
    with Cons.prems a have "runVisits (\<lambda>path x. doRunFilter cl path x filters (Some (recording run))) lv (log, s) =
             (err, (log', s'))"
      by (simp add: doRunFilter_recording)
    note ih = Cons.IH [OF this]
    have eq: "matched filters (a # lv) = matched filters lv"
      unfolding a by (simp add: None)
    show ?thesis unfolding eq by (rule ih)
  next
    case (Some c)
    obtain r err1 s1 where run: "run c x s = ((r, err1), s1)"
      by (metis prod.exhaust)
    show ?thesis
    proof (cases err1)
      case None
      with Cons.prems a Some run
      have "runVisits (\<lambda>path x. doRunFilter cl path x filters (Some (recording run))) lv
              (log @ [Call c x r None], s1) = (err, (log', s'))"
        by (simp add: doRunFilter_recording)
      from Cons.IH [OF this] obtain new where new:
        "log' = (log @ [Call c x r None]) @ new"
        "map (\<lambda>c. (commandOf c, valueOf c)) new = take (length new) (matched filters lv)"
        "\<forall>c\<in>set (butlast new). errorOf c = None"
        "case err of
              Some e \<Rightarrow> new \<noteq> [] \<and> errorOf (last new) = Some e
            | None \<Rightarrow> length new = length (matched filters lv) \<and> (\<forall>c\<in>set new. errorOf c = None)"
        by blast
      let ?new = "Call c x r None # new"
      have "log' = log @ ?new" using new(1) by simp
      moreover have "map (\<lambda>c. (commandOf c, valueOf c)) ?new =
          take (length ?new) (matched filters (a # lv))"
        using new(2) a Some by simp
      moreover have "\<forall>c\<in>set (butlast ?new). errorOf c = None"
        using new(3) by simp
      moreover have "case err of
              Some e \<Rightarrow> ?new \<noteq> [] \<and> errorOf (last ?new) = Some e
            | None \<Rightarrow> length ?new = length (matched filters (a # lv)) \<and> (\<forall>c\<in>set ?new. errorOf c = None)"
        using new(4) a Some by (auto split: option.splits)
      ultimately show ?thesis by blast
    next
      case (Some e)
      with Cons.prems a \<open>getFilterCommand path filters = Some c\<close> run
      have "err = Some e" "log' = log @ [Call c x r (Some e)]"
        by (auto simp: doRunFilter_recording)
      then show ?thesis
        using a \<open>getFilterCommand path filters = Some c\<close>
        by (intro exI [of _ "[Call c x r (Some e)]"]) simp
    qed
  qed
qed

lemma matched_leaf:
  "(c, x) \<in> set (matched filters lv) \<Longrightarrow>
     \<exists>path. (path, x) \<in> set lv \<and> getFilterCommand path filters = Some c"
  by (induction lv) (fastforce split: option.splits)+

lemma traverseMap_entry:
  "map_of m k = Some v0 \<Longrightarrow>
     map_of (fst (fst (traverseMap m path visit s))) k = Some v0 \<or>
     (\<exists>s0. map_of (fst (fst (traverseMap m path visit s))) k =
        Some (fst (fst (traverseWithPath v0 (path @ segmentString (Key k)) visit s0))))"
proof (induction m arbitrary: s)
  case Nil
  then show ?case by simp
next
  case (Cons a m)
  obtain k' v' where a: "a = (k', v')" by (cases a)
  obtain v1 err s1 where t: "traverseWithPath v' (path @ segmentString (Key k')) visit s = ((v1, err), s1)"
    by (metis prod.exhaust)
  show ?case
  proof (cases "k' = k")
    case True
    with Cons.prems a have "v0 = v'" by simp
    with True a t have "map_of (fst (fst (traverseMap (a # m) path visit s))) k =
        Some (fst (fst (traverseWithPath v0 (path @ segmentString (Key k)) visit s)))"
      by (auto split: prod.splits)
    then show ?thesis by blast
  next
    case False
    with Cons.prems a have m: "map_of m k = Some v0" by simp
    show ?thesis
    proof (cases err)
      case None
      from Cons.IH [OF m, of s1] show ?thesis
        using a t None False by (auto split: prod.splits)
    next
      case (Some e)
      then show ?thesis using a t False m by simp
    qed
  qed
qed

lemma length_traverseSlice':
  "traverseSlice sl i path visit s = ((r, err), s') \<Longrightarrow> length r = length sl"
  by (induction sl arbitrary: i s r err s') (auto split: prod.splits if_splits)

lemma length_traverseSlice:
  "length (fst (fst (traverseSlice sl i path visit s))) = length sl"
  using length_traverseSlice' [of sl i path visit s] by (metis prod.collapse)

lemma traverseSlice_element:
  "j < length sl \<Longrightarrow>
     fst (fst (traverseSlice sl i path visit s)) ! j = sl ! j \<or>
     (\<exists>s0. fst (fst (traverseSlice sl i path visit s)) ! j =
        fst (fst (traverseWithPath (sl ! j) (path @ segmentString (Index (i + j))) visit s0)))"
proof (induction sl arbitrary: i j s)
  case Nil
  then show ?case by simp
next
  case (Cons v' sl)
  obtain v1 err s1 where t: "traverseWithPath v' (path @ segmentString (Index i)) visit s = ((v1, err), s1)"
    by (metis prod.exhaust)
  show ?case
  proof (cases j)
    case 0
    with t have "fst (fst (traverseSlice (v' # sl) i path visit s)) ! j =
        fst (fst (traverseWithPath ((v' # sl) ! j) (path @ segmentString (Index (i + j))) visit s))"
      by (auto split: prod.splits)
    then show ?thesis by blast
  next
    case (Suc j')
    with Cons.prems have j': "j' < length sl" by simp
    show ?thesis
    proof (cases err)
      case None
      from Cons.IH [OF j', of "Suc i" s1] show ?thesis
        using t None Suc by (auto split: prod.splits)
    next
      case (Some e)
      then show ?thesis using t Suc by simp
    qed
  qed
qed

lemma nodeAt_traverseWithPath:
  assumes "nodeAt v p = Some u"
    and "\<forall>m. u \<noteq> JObject m" and "\<forall>sl. u \<noteq> JArray sl"
    and "\<forall>x s. u = JString x \<longrightarrow> fst (fst (visit (path @ pathString p) x s)) = x"
  shows "nodeAt (fst (fst (traverseWithPath v path visit s))) p = Some u"
  using assms
proof (induction p arbitrary: v path s)
  case Nil
  then have "v = u" by simp
  with Nil show ?case
    by (cases u) (auto simp: pathString_def split: prod.splits, metis fst_conv)
next
  case (Cons seg p)
  show ?case
  proof (cases seg)
    case (Key k)
    with Cons.prems(1) obtain m where v: "v = JObject m"
      by (cases v) simp_all
    with Cons.prems(1) Key obtain v0 where v0: "map_of m k = Some v0" "nodeAt v0 p = Some u"
      by (auto split: option.splits)
    have keep: "\<forall>x s. u = JString x \<longrightarrow>
        fst (fst (visit ((path @ segmentString (Key k)) @ pathString p) x s)) = x"
      using Cons.prems(4) Key by (simp add: pathString_Cons)
    let ?r = "fst (fst (traverseMap m path visit s))"
    from traverseMap_entry [OF v0(1), of path visit s]
    have "\<exists>v1. map_of ?r k = Some v1 \<and> nodeAt v1 p = Some u"
    proof
      assume "map_of ?r k = Some v0"
      with v0(2) show ?thesis by blast
    next
      assume "\<exists>s0. map_of ?r k =
        Some (fst (fst (traverseWithPath v0 (path @ segmentString (Key k)) visit s0)))"
      then obtain s0 where "map_of ?r k =
        Some (fst (fst (traverseWithPath v0 (path @ segmentString (Key k)) visit s0)))" ..
      moreover have "nodeAt (fst (fst (traverseWithPath v0 (path @ segmentString (Key k)) visit s0))) p = Some u"
        by (rule Cons.IH [OF v0(2) Cons.prems(2) Cons.prems(3) keep])
      ultimately show ?thesis by blast
    qed
    then show ?thesis using v Key by (auto split: prod.splits)
  next
    case (Index j)
    with Cons.prems(1) obtain sl where v: "v = JArray sl"
      by (cases v) simp_all
    with Cons.prems(1) Index have j: "j < length sl" "nodeAt (sl ! j) p = Some u"
      by (auto split: if_splits)
    have keep: "\<forall>x s. u = JString x \<longrightarrow>
        fst (fst (visit ((path @ segmentString (Index (0 + j))) @ pathString p) x s)) = x"
      using Cons.prems(4) Index by (simp add: pathString_Cons)
    let ?r = "fst (fst (traverseSlice sl 0 path visit s))"
    have len: "length ?r = length sl" by (rule length_traverseSlice)
    from traverseSlice_element [OF j(1), of 0 path visit s]
    have "nodeAt (?r ! j) p = Some u"
    proof
      assume "?r ! j = sl ! j"
      with j(2) show ?thesis by simp
    next
      assume "\<exists>s0. ?r ! j =
        fst (fst (traverseWithPath (sl ! j) (path @ segmentString (Index (0 + j))) visit s0))"
      then obtain s0 where "?r ! j =
        fst (fst (traverseWithPath (sl ! j) (path @ segmentString (Index (0 + j))) visit s0))" ..
      moreover have "nodeAt (fst (fst (traverseWithPath (sl ! j) (path @ segmentString (Index (0 + j))) visit s0))) p = Some u"
        by (rule Cons.IH [OF j(2) Cons.prems(2) Cons.prems(3) keep])
      ultimately show ?thesis by simp
    qed
    then show ?thesis using v Index len j(1) by (auto split: prod.splits)
  qed
qed

lemma nodeAt_callerValue:
  "nodeAt v p = Some u \<Longrightarrow> nodeAt t p = Some u \<Longrightarrow> nodeAt (callerValue v t) p = Some u"
  by (cases v) simp_all

lemma doFilter_loaded:
  "loadFilters w filter' = (filters, None) \<Longrightarrow>
     doFilter w cl v filter' filterRunner s =
       (let t = traverseWithPath v [] (\<lambda>path x. doRunFilter cl path x filters filterRunner) s
        in ((callerValue v (fst (fst t)), snd (fst t)), snd t))"
  by (simp add: doFilter_def traverse_def split: prod.splits)

lemma loadFilters_command:
  "\<not> HasSuffix filter' ''.json'' \<Longrightarrow> loadFilters w filter' = (JString filter', None)"
  by (simp add: loadFilters_def)

lemma nodeAt_doFilter:
  assumes "loadFilters w filter' = (filters, None)"
    and "nodeAt v p = Some u"
    and "\<forall>m. u \<noteq> JObject m" and "\<forall>sl. u \<noteq> JArray sl"
    and "\<forall>x. u = JString x \<longrightarrow> getFilterCommand (pathString p) filters = None"
  shows "nodeAt (fst (fst (doFilter w cl v filter' filterRunner s))) p = Some u"
proof -
  let ?visit = "\<lambda>path x. doRunFilter cl path x filters filterRunner"
  have "\<forall>x s. u = JString x \<longrightarrow> fst (fst (?visit ([] @ pathString p) x s)) = x"
    using assms(5) by (simp add: doRunFilter_def)
  from nodeAt_traverseWithPath [where visit = ?visit and path = "[]", OF assms(2) assms(3) assms(4) this, of s]
  have "nodeAt (callerValue v (fst (fst (traverseWithPath v [] ?visit s)))) p = Some u"
    by (intro nodeAt_callerValue assms(2))
  then show ?thesis
    by (simp add: doFilter_loaded [OF assms(1)] Let_def)
qed

lemma map_of_wellFormedMap:
  "wellFormedMap m \<Longrightarrow> (k, v) \<in> set m \<Longrightarrow> map_of m k = Some v"
  by (induction m) (auto simp: rev_image_eqI)

lemma leaves_nodeAt:
  fixes v :: "'n json" and m :: "(string \<times> 'n json) list" and sl :: "'n json list"
  shows "wellFormed v \<Longrightarrow> (ps, x) \<in> set (leaves v path) \<Longrightarrow>
           \<exists>q. ps = path @ pathString q \<and> nodeAt v q = Some (JString x)"
    and "wellFormedMap m \<Longrightarrow> (ps, x) \<in> set (leavesMap m path) \<Longrightarrow>
           \<exists>k v0 q. map_of m k = Some v0 \<and> ps = path @ segmentString (Key k) @ pathString q \<and>
              nodeAt v0 q = Some (JString x)"
    and "wellFormedSlice sl \<Longrightarrow> (ps, x) \<in> set (leavesSlice sl i path) \<Longrightarrow>
           \<exists>j q. j < length sl \<and> ps = path @ segmentString (Index (i + j)) @ pathString q \<and>
              nodeAt (sl ! j) q = Some (JString x)"
proof (induction v path and m path and sl i path rule: leaves_leavesMap_leavesSlice.induct)
  case (1 x path)
  then show ?case by (auto intro: exI [of _ "[]"] simp: pathString_def)
next
  case (2 m path)
  then obtain k v0 q where "map_of m k = Some v0" "ps = path @ segmentString (Key k) @ pathString q"
    "nodeAt v0 q = Some (JString x)" by auto
  then have "ps = path @ pathString (Key k # q) \<and> nodeAt (JObject m) (Key k # q) = Some (JString x)"
    by (simp add: pathString_Cons)
  then show ?case by blast
next
  case (3 slice path)
  then obtain j q where "j < length slice" "ps = path @ segmentString (Index (0 + j)) @ pathString q"
    "nodeAt (slice ! j) q = Some (JString x)" by auto
  then have "ps = path @ pathString (Index j # q) \<and> nodeAt (JArray slice) (Index j # q) = Some (JString x)"
    by (simp add: pathString_Cons)
  then show ?case by blast
next
  case (8 k v rest path)
  from "8.prems" have wf: "k \<notin> set (map fst rest)" "wellFormed v" "wellFormedMap rest" by simp_all
  from "8.prems"(2) consider "(ps, x) \<in> set (leaves v (path @ segmentString (Key k)))"
    | "(ps, x) \<in> set (leavesMap rest path)" by auto
  then show ?case
  proof cases
    case 1
    from "8.IH"(1) [OF wf(2) 1] obtain q where
      "ps = (path @ segmentString (Key k)) @ pathString q" "nodeAt v q = Some (JString x)" by blast
    then have "map_of ((k, v) # rest) k = Some v \<and> ps = path @ segmentString (Key k) @ pathString q \<and>
        nodeAt v q = Some (JString x)" by simp
    then show ?thesis by blast
  next
    case 2
    from "8.IH"(2) [OF wf(3) 2] obtain k0 v0 q where r:
      "map_of rest k0 = Some v0" "ps = path @ segmentString (Key k0) @ pathString q"
      "nodeAt v0 q = Some (JString x)" by blast
    from r(1) have "k0 \<in> set (map fst rest)" by (metis map_of_SomeD image_eqI fst_conv set_map)
    with wf(1) have "k0 \<noteq> k" by auto
    with r have "map_of ((k, v) # rest) k0 = Some v0 \<and> ps = path @ segmentString (Key k0) @ pathString q \<and>
        nodeAt v0 q = Some (JString x)" by simp
    then show ?thesis by blast
  qed
next
  case (10 v rest i path)
  from "10.prems" have wf: "wellFormed v" "wellFormedSlice rest" by simp_all
  from "10.prems"(2) consider "(ps, x) \<in> set (leaves v (path @ segmentString (Index i)))"
    | "(ps, x) \<in> set (leavesSlice rest (Suc i) path)" by auto
  then show ?case
  proof cases
    case 1
    from "10.IH"(1) [OF wf(1) 1] obtain q where
      "ps = (path @ segmentString (Index i)) @ pathString q" "nodeAt v q = Some (JString x)" by blast
    then have "0 < length (v # rest) \<and> ps = path @ segmentString (Index (i + 0)) @ pathString q \<and>
        nodeAt ((v # rest) ! 0) q = Some (JString x)" by simp
    then show ?thesis by blast
  next
    case 2
    from "10.IH"(2) [OF wf(2) 2] obtain j q where r:
      "j < length rest" "ps = path @ segmentString (Index (Suc i + j)) @ pathString q"
      "nodeAt (rest ! j) q = Some (JString x)" by blast
    then have "Suc j < length (v # rest) \<and> ps = path @ segmentString (Index (i + Suc j)) @ pathString q \<and>
        nodeAt ((v # rest) ! Suc j) q = Some (JString x)" by simp
    then show ?thesis by blast
  qed
qed simp_all

lemma doFilter_runs:
  assumes "loadFilters w filter' = (filters, None)"
    and "doFilter w cl v filter' filterRunner s = ((v', err), s')"
  shows "runVisits (\<lambda>path x. doRunFilter cl path x filters filterRunner) (leaves v []) s = (err, s')"
proof -
  let ?t = "traverseWithPath v [] (\<lambda>path x. doRunFilter cl path x filters filterRunner) s"
  from assms have "snd (fst ?t) = err" "snd ?t = s'"
    by (simp_all add: doFilter_loaded Let_def)
  then have "(case ?t of ((v', err), s') \<Rightarrow> (err, s')) = (err, s')"
    by (auto split: prod.splits)
  then show ?thesis by (simp only: traverse_runs(1))
qed

section \<open>Claims about the traverser\<close>

text \<open>
  Claim C5. If the filter runner returns an error for some leaf, the filtering returns
  that error and no further leaf is passed to the runner. The runner is any runner, made
  to record its calls, and nothing is assumed of what \<^verbatim>\<open>doFilter\<close> returns. The recorded
  calls are the first ones of the matched leaves in the order of the visits. A call that
  returned an error is the last call recorded, and its error is the error that
  \<^verbatim>\<open>doFilter\<close> returns: the number of calls made is the position of the first failure and
  not the number of matched leaves. Every call before the last succeeded. When
  \<^verbatim>\<open>doFilter\<close> returns an error, it is the error of the last call; when it returns none,
  no call failed and every matched leaf was passed to the runner.
\<close>

theorem first_error_stops_the_traversal:
  assumes "loadFilters w filter' = (filters, None)"
    and "doFilter w cl v filter' (Some (recording run)) ([], s) = ((v', err), (log, s'))"
  shows "map (\<lambda>c. (commandOf c, valueOf c)) log = take (length log) (matched filters (leaves v [])) \<and>
         length log \<le> length (matched filters (leaves v [])) \<and>
         (\<forall>c\<in>set (butlast log). errorOf c = None) \<and>
         (\<forall>i<length log. errorOf (log ! i) \<noteq> None \<longrightarrow>
            Suc i = length log \<and> err = errorOf (log ! i)) \<and>
         (\<forall>e. err = Some e \<longrightarrow> log \<noteq> [] \<and> errorOf (last log) = Some e) \<and>
         (err = None \<longrightarrow>
            length log = length (matched filters (leaves v [])) \<and> (\<forall>c\<in>set log. errorOf c = None))"
proof -
  from doFilter_runs [OF assms]
  have "runVisits (\<lambda>path x. doRunFilter cl path x filters (Some (recording run))) (leaves v []) ([], s) =
          (err, (log, s'))" .
  from runVisits_recording [OF this] obtain new where new:
    "log = [] @ new"
    "map (\<lambda>c. (commandOf c, valueOf c)) new = take (length new) (matched filters (leaves v []))"
    "\<forall>c\<in>set (butlast new). errorOf c = None"
    "case err of
       Some e \<Rightarrow> new \<noteq> [] \<and> errorOf (last new) = Some e
     | None \<Rightarrow> length new = length (matched filters (leaves v [])) \<and> (\<forall>c\<in>set new. errorOf c = None)"
    by blast
  from new(1) have ln: "new = log" by simp
  note pre = new(2) [unfolded ln] and but = new(3) [unfolded ln] and fin = new(4) [unfolded ln]
  from pre have "length log = min (length log) (length (matched filters (leaves v [])))"
    by (metis length_map length_take min.commute)
  then have len: "length log \<le> length (matched filters (leaves v []))" by simp
  have some: "log \<noteq> [] \<and> errorOf (last log) = Some e" if "err = Some e" for e
    using fin that by simp
  have none: "length log = length (matched filters (leaves v [])) \<and> (\<forall>c\<in>set log. errorOf c = None)"
    if "err = None"
    using fin that by simp
  have failed: "Suc i = length log \<and> err = errorOf (log ! i)"
    if i: "i < length log" and f: "errorOf (log ! i) \<noteq> None" for i
  proof -
    from i have mem: "log ! i \<in> set log" by simp
    have "err \<noteq> None"
    proof
      assume "err = None"
      from none [OF this] have all: "\<forall>c\<in>set log. errorOf c = None" by (rule conjunct2)
      from all mem have "errorOf (log ! i) = None" by (rule bspec)
      with f show False by simp
    qed
    then obtain e where e: "err = Some e" by blast
    from some [OF e] have ne: "log \<noteq> []" and l: "errorOf (last log) = Some e" by simp_all
    have "\<not> i < length (butlast log)"
    proof
      assume b: "i < length (butlast log)"
      then have "butlast log ! i \<in> set (butlast log)" by simp
      moreover from b have "butlast log ! i = log ! i" by (rule nth_butlast)
      ultimately show False using but f by auto
    qed
    with i have last: "Suc i = length log" by simp
    then have i': "length log - 1 = i" by arith
    from ne have "last log = log ! (length log - 1)" by (rule last_conv_nth)
    then have "log ! i = last log" by (simp only: i')
    with l e last show ?thesis by simp
  qed
  show ?thesis
  proof (intro conjI allI impI)
    show "map (\<lambda>c. (commandOf c, valueOf c)) log = take (length log) (matched filters (leaves v []))"
      by (rule pre)
    show "length log \<le> length (matched filters (leaves v []))" by (rule len)
    show "\<forall>c\<in>set (butlast log). errorOf c = None" by (rule but)
  next
    fix i assume "i < length log" "errorOf (log ! i) \<noteq> None"
    then show "Suc i = length log" "err = errorOf (log ! i)" using failed by simp_all
  next
    fix e assume "err = Some e"
    then show "log \<noteq> []" "errorOf (last log) = Some e" using some by simp_all
  next
    assume "err = None"
    then show "length log = length (matched filters (leaves v []))" "\<forall>c\<in>set log. errorOf c = None"
      using none by simp_all
  qed
qed

theorem first_error_stops_the_traversal_witness:
  "loadFilters bareWorld ''cmd'' = (JString ''cmd'' :: int json, None) \<and>
   doFilter bareWorld noCommand (JObject [(''a'', JArray [JString ''p'', JString ''q'', JString ''r''])] :: int json)
     ''cmd'' (Some (recording (\<lambda>c x s. if x = ''q'' then (([], Some (Error ''boom'')), s) else ((x, None), s))))
     ([], ()) =
     ((JObject [(''a'', JArray [JString ''p'', JString [], JString ''r''])], Some (Error ''boom'')),
      ([Call ''cmd'' ''p'' ''p'' None, Call ''cmd'' ''q'' [] (Some (Error ''boom''))], ())) \<and>
   matched (JString ''cmd'' :: int json)
     (leaves (JObject [(''a'', JArray [JString ''p'', JString ''q'', JString ''r''])] :: int json) []) =
     [(''cmd'', ''p''), (''cmd'', ''q''), (''cmd'', ''r'')] \<and>
   length [Call ''cmd'' ''p'' ''p'' None, Call ''cmd'' ''q'' [] (Some (Error ''boom''))] = 2 \<and>
   errorOf (last [Call ''cmd'' ''p'' ''p'' None, Call ''cmd'' ''q'' [] (Some (Error ''boom''))]) = Some (Error ''boom'')"
proof -
  have l: "loadFilters bareWorld ''cmd'' = (JString ''cmd'' :: int json, None)"
    by (simp add: loadFilters_def HasSuffix_def)
  have d: "doFilter bareWorld noCommand (JObject [(''a'', JArray [JString ''p'', JString ''q'', JString ''r''])] :: int json)
     ''cmd'' (Some (recording (\<lambda>c x s. if x = ''q'' then (([], Some (Error ''boom'')), s) else ((x, None), s))))
     ([], ()) =
     ((JObject [(''a'', JArray [JString ''p'', JString [], JString ''r''])], Some (Error ''boom'')),
      ([Call ''cmd'' ''p'' ''p'' None, Call ''cmd'' ''q'' [] (Some (Error ''boom''))], ()))"
    by (simp add: doFilter_loaded [OF l] doRunFilter_recording getFilterCommand_String)
  have m: "matched (JString ''cmd'' :: int json)
     (leaves (JObject [(''a'', JArray [JString ''p'', JString ''q'', JString ''r''])] :: int json) []) =
     [(''cmd'', ''p''), (''cmd'', ''q''), (''cmd'', ''r'')]"
    by (simp add: getFilterCommand_String)
  have "errorOf (last [Call ''cmd'' ''p'' ''p'' None, Call ''cmd'' ''q'' [] (Some (Error ''boom''))]) =
      Some (Error ''boom'')"
    using first_error_stops_the_traversal [OF l d] by blast
  with l d m show ?thesis by simp
qed




text \<open>
  Claim C7. The Number, Boolean and Null nodes of the data are in the result what they
  were in the input, whatever the runner does and whether or not it fails, and they are
  never passed to the filter runner: every value that a recording runner was called with
  is the value of a String node of the data.
\<close>
theorem plain_nodes_are_untouched:
  assumes "loadFilters w filter' = (filters, None)"
    and "wellFormed v"
    and "nodeAt v p = Some u"
    and "u = JNumber n \<or> u = JBool b \<or> u = JNull"
  shows "nodeAt (fst (fst (doFilter w cl v filter' filterRunner s))) p = Some u \<and>
         (\<forall>c\<in>set (fst (snd (doFilter w cl' v filter' (Some (recording run)) ([], s0)))).
            \<exists>q. nodeAt v q = Some (JString (valueOf c)))"
proof
  show "nodeAt (fst (fst (doFilter w cl v filter' filterRunner s))) p = Some u"
    using assms by (intro nodeAt_doFilter) auto
next
  obtain v' err log s' where d:
    "doFilter w cl' v filter' (Some (recording run)) ([], s0) = ((v', err), (log, s'))"
    by (metis prod.exhaust)
  from runVisits_recording [OF doFilter_runs [OF assms(1) d]]
  have take: "map (\<lambda>c. (commandOf c, valueOf c)) log = take (length log) (matched filters (leaves v []))"
    by auto
  have "\<exists>q. nodeAt v q = Some (JString (valueOf c))" if "c \<in> set log" for c
  proof -
    from that have "(commandOf c, valueOf c) \<in> set (map (\<lambda>c. (commandOf c, valueOf c)) log)"
      by simp
    with take have "(commandOf c, valueOf c) \<in> set (matched filters (leaves v []))"
      by (metis in_set_takeD)
    then obtain path where "(path, valueOf c) \<in> set (leaves v [])"
      using matched_leaf by blast
    from leaves_nodeAt(1) [OF assms(2) this] show ?thesis by blast
  qed
  with d show "\<forall>c\<in>set (fst (snd (doFilter w cl' v filter' (Some (recording run)) ([], s0)))).
            \<exists>q. nodeAt v q = Some (JString (valueOf c))"
    by simp
qed

theorem plain_nodes_are_untouched_witness:
  "loadFilters bareWorld ''cmd'' = (JString ''cmd'' :: int json, None) \<and>
   wellFormed (JObject [(''n'', JNumber 7), (''s'', JString ''x'')] :: int json) \<and>
   nodeAt (JObject [(''n'', JNumber 7), (''s'', JString ''x'')] :: int json) [Key ''n''] = Some (JNumber 7) \<and>
   nodeAt (fst (fst (doFilter bareWorld noCommand (JObject [(''n'', JNumber 7), (''s'', JString ''x'')] :: int json)
       ''cmd'' (Some (succeeding (\<lambda>c x. c @ x))) ()))) [Key ''n''] = Some (JNumber 7)"
proof -
  have l: "loadFilters bareWorld ''cmd'' = (JString ''cmd'' :: int json, None)"
    by (simp add: loadFilters_def HasSuffix_def)
  have wf: "wellFormed (JObject [(''n'', JNumber 7), (''s'', JString ''x'')] :: int json)"
    by simp
  have n: "nodeAt (JObject [(''n'', JNumber 7), (''s'', JString ''x'')] :: int json) [Key ''n''] = Some (JNumber 7)"
    by simp
  have u: "JNumber (7::int) = JNumber 7 \<or> JNumber (7::int) = JBool True \<or> JNumber (7::int) = JNull"
    by simp
  from plain_nodes_are_untouched [OF l wf n u, of noCommand "Some (succeeding (\<lambda>c x. c @ x))" "()"
      noCommand "\<lambda>c x s. ((x, None), s)" "()"] l wf n
  show ?thesis by blast
qed

text \<open>
  Claim C4 at a data tree that is a single String. The traversal returns the filtered
  string, but \<^verbatim>\<open>doFilter\<close> drops it and \<^verbatim>\<open>FilterJsonFromTextWithFilterRunner\<close> returns the
  value it decoded: the document \<open>"hello"\<close> comes back as \<open>"hello"\<close> and not as the
  string the runner returned. The same string inside an array is replaced.
\<close>
theorem root_string_is_returned_unfiltered:
  "FilterJsonFromTextWithFilterRunner
     \<lparr>openFile = (\<lambda>name. Inl (Error ''no such file'')),
      decode = (\<lambda>text. if text = [CHR 0x22] @ ''hello'' @ [CHR 0x22] then (JString ''hello'', None)
                        else (JNull, Some (Error ''invalid'')))\<rparr>
     cl ([CHR 0x22] @ ''hello'' @ [CHR 0x22]) ''upper'' (Some (succeeding f)) s =
     ((JString ''hello'', None), s) \<and>
   traverse (JString ''hello'') (\<lambda>path x. doRunFilter cl path x (JString ''upper'') (Some (succeeding f))) s =
     ((JString (f ''upper'' ''hello''), None), s) \<and>
   FilterJsonFromTextWithFilterRunner
     \<lparr>openFile = (\<lambda>name. Inl (Error ''no such file'')),
      decode = (\<lambda>text. if text = ''['' @ [CHR 0x22] @ ''hello'' @ [CHR 0x22] @ '']'' then (JArray [JString ''hello''], None)
                        else (JNull, Some (Error ''invalid'')))\<rparr>
     cl (''['' @ [CHR 0x22] @ ''hello'' @ [CHR 0x22] @ '']'') ''upper'' (Some (succeeding f)) s =
     ((JArray [JString (f ''upper'' ''hello'')], None), s)"
  by (simp add: FilterJsonFromTextWithFilterRunner_def readJsonFromText_def readJsonFromReader_def
      doFilter_def loadFilters_def HasSuffix_def traverse_def doRunFilter_succeeding
      getFilterCommand_String)

section \<open>The traversal over the store\<close>

lemma cellRefs_elementsAt: "v \<in> set (elementsAt h a) \<Longrightarrow> valueRefs v \<subseteq> cellRefs (h a)"
  by (cases "h a") (auto simp: elementsAt_def split: cell.splits)

lemma cellRefs_entriesAt: "(k, v) \<in> set (entriesAt h a) \<Longrightarrow> valueRefs v \<subseteq> cellRefs (h a)"
  by (cases "h a") (force simp: entriesAt_def split: cell.splits)+

lemma set_assign: "set (assign m k v) \<subseteq> insert (k, v) (set m)"
  by (induction m) (auto split: if_splits)

lemma cellRefs_assign:
  "cellRefs (Some (Entries (assign (entriesAt h a) k v))) \<subseteq> cellRefs (h a) \<union> valueRefs v"
proof -
  have "cellRefs (Some (Entries (assign m k v))) \<subseteq> cellRefs (Some (Entries m)) \<union> valueRefs v" for m
    using set_assign [of m k v] by auto
  moreover have "cellRefs (Some (Entries (entriesAt h a))) \<subseteq> cellRefs (h a)"
    by (cases "h a") (force simp: entriesAt_def split: cell.splits)+
  ultimately show ?thesis by blast
qed

lemma cellRefs_update:
  "cellRefs (Some (Elements ((elementsAt h a)[i := v]))) \<subseteq> cellRefs (h a) \<union> valueRefs v"
proof -
  have "cellRefs (Some (Elements (xs[i := v]))) \<subseteq> cellRefs (Some (Elements xs)) \<union> valueRefs v" for xs
    using set_update_subset_insert [of xs i v] by auto
  moreover have "cellRefs (Some (Elements (elementsAt h a))) \<subseteq> cellRefs (h a)"
    by (cases "h a") (auto simp: elementsAt_def split: cell.splits)
  ultimately show ?thesis by blast
qed

lemma closed_write:
  "closed h A \<Longrightarrow> a \<in> A \<Longrightarrow> cellRefs (Some c) \<subseteq> A \<Longrightarrow> closed (h(a \<mapsto> c)) A"
  by (auto simp: closed_def)

lemma closed_refs: "closed h A \<Longrightarrow> a \<in> A \<Longrightarrow> cellRefs (h a) \<subseteq> A"
  by (auto simp: closed_def)

lemma store_frame:
  fixes visit :: "('n, 's) storeVisitor"
  shows "traverseWithPathS n v path visit h s = Some ((v', err), h', s') \<Longrightarrow> closed h A \<Longrightarrow>
           valueRefs v \<subseteq> A \<Longrightarrow>
           (\<forall>b. b \<notin> A \<longrightarrow> h' b = h b) \<and> closed h' A \<and> valueRefs v' \<subseteq> A"
    and "traverseMapS n a ks path visit h s = Some (err, h', s') \<Longrightarrow> closed h A \<Longrightarrow> a \<in> A \<Longrightarrow>
           (\<forall>b. b \<notin> A \<longrightarrow> h' b = h b) \<and> closed h' A"
    and "traverseSliceS n a js path visit h s = Some (err, h', s') \<Longrightarrow> closed h A \<Longrightarrow> a \<in> A \<Longrightarrow>
           (\<forall>b. b \<notin> A \<longrightarrow> h' b = h b) \<and> closed h' A"
proof (induction n v path visit h s and n a ks path visit h s and n a js path visit h s
       arbitrary: v' err h' s' and err h' s' and err h' s'
       rule: traverseWithPathS_traverseMapS_traverseSliceS.induct)
  case (1 v path visit h s)
  then show ?case by simp
next
  case (2 n x path visit h s)
  then show ?case by (auto split: prod.splits)
next
  case (3 n a path visit h s)
  from "3.prems"(1) have t: "traverseMapS n a (map fst (entriesAt h a)) path visit h s = Some (err, h', s')"
    and v': "v' = HMap a"
    by (auto split: option.splits)
  from "3.prems"(3) have "a \<in> A" by simp
  from "3.IH" [OF t "3.prems"(2) this] v' \<open>a \<in> A\<close> show ?case by simp
next
  case (4 n a path visit h s)
  from "4.prems"(1) have t: "traverseSliceS n a [0..<length (elementsAt h a)] path visit h s = Some (err, h', s')"
    and v': "v' = HSlice a"
    by (auto split: option.splits)
  from "4.prems"(3) have "a \<in> A" by simp
  from "4.IH" [OF t "4.prems"(2) this] v' \<open>a \<in> A\<close> show ?case by simp
next
  case (5 n x path visit h s)
  then show ?case by auto
next
  case (6 n b path visit h s)
  then show ?case by auto
next
  case (7 n path visit h s)
  then show ?case by auto
next
  case (8 n a path visit h s)
  then show ?case by auto
next
  case (9 n a k ks path visit h s)
  note cl = "9.prems"(2) and aA = "9.prems"(3)
  show ?case
  proof (cases "map_of (entriesAt h a) k")
    case None
    with "9.prems"(1) have "traverseMapS n a ks path visit h s = Some (err, h', s')" by simp
    from "9.IH"(1) [OF None this cl aA] show ?thesis .
  next
    case (Some v)
    let ?p = "path @ ''['' @ [CHR 0x27] @ k @ [CHR 0x27] @ '']''"
    from "9.prems"(1) Some obtain v1 err1 h1 s1 where
      t: "traverseWithPathS n v ?p visit h s = Some ((v1, err1), h1, s1)"
      by (auto split: option.splits)
    from Some have "(k, v) \<in> set (entriesAt h a)" by (rule map_of_SomeD)
    then have "valueRefs v \<subseteq> A"
      using cellRefs_entriesAt closed_refs [OF cl aA] by blast
    from "9.IH"(2) [OF Some t cl this]
    have f1: "\<forall>b. b \<notin> A \<longrightarrow> h1 b = h b" and c1: "closed h1 A" and r1: "valueRefs v1 \<subseteq> A"
      by simp_all
    let ?h2 = "h1(a \<mapsto> Entries (assign (entriesAt h1 a) k v1))"
    have "cellRefs (Some (Entries (assign (entriesAt h1 a) k v1))) \<subseteq> A"
      using cellRefs_assign [of h1 a k v1] closed_refs [OF c1 aA] r1 by blast
    then have c2: "closed ?h2 A" by (rule closed_write [OF c1 aA])
    have f2: "\<forall>b. b \<notin> A \<longrightarrow> ?h2 b = h b" using f1 aA by auto
    show ?thesis
    proof (cases err1)
      case None
      with "9.prems"(1) Some t have t2: "traverseMapS n a ks path visit ?h2 s1 = Some (err, h', s')"
        by simp
      have "\<not> err1 \<noteq> None" using None by simp
      from "9.IH"(3) [OF Some t refl refl refl refl this t2 c2 aA] f2 show ?thesis by simp
    next
      case (Some e)
      with "9.prems"(1) \<open>map_of (entriesAt h a) k = Some v\<close> t have "h' = ?h2" by simp
      with c2 f2 show ?thesis by (simp only: simp_thms)
    qed
  qed
next
  case (10 n a path visit h s)
  then show ?case by auto
next
  case (11 n a i js path visit h s)
  note cl = "11.prems"(2) and aA = "11.prems"(3)
  show ?case
  proof (cases "i < length (elementsAt h a)")
    case False
    with "11.prems"(1) have "traverseSliceS n a js path visit h s = Some (err, h', s')" by simp
    from "11.IH"(3) [OF False this cl aA] show ?thesis .
  next
    case True
    let ?p = "path @ ''['' @ decimal i @ '']''"
    let ?v = "elementsAt h a ! i"
    from "11.prems"(1) True obtain v1 err1 h1 s1 where
      t: "traverseWithPathS n ?v ?p visit h s = Some ((v1, err1), h1, s1)"
      by (auto split: option.splits)
    from True have "?v \<in> set (elementsAt h a)" by simp
    then have "valueRefs ?v \<subseteq> A"
      using cellRefs_elementsAt closed_refs [OF cl aA] by blast
    from "11.IH"(1) [OF True t cl this]
    have f1: "\<forall>b. b \<notin> A \<longrightarrow> h1 b = h b" and c1: "closed h1 A" and r1: "valueRefs v1 \<subseteq> A"
      by simp_all
    let ?h2 = "h1(a \<mapsto> Elements ((elementsAt h1 a)[i := v1]))"
    have "cellRefs (Some (Elements ((elementsAt h1 a)[i := v1]))) \<subseteq> A"
      using cellRefs_update [of h1 a i v1] closed_refs [OF c1 aA] r1 by blast
    then have c2: "closed ?h2 A" by (rule closed_write [OF c1 aA])
    have f2: "\<forall>b. b \<notin> A \<longrightarrow> ?h2 b = h b" using f1 aA by auto
    show ?thesis
    proof (cases err1)
      case None
      with "11.prems"(1) True t have t2: "traverseSliceS n a js path visit ?h2 s1 = Some (err, h', s')"
        by simp
      have "\<not> err1 \<noteq> None" using None by simp
      from "11.IH"(2) [OF True t refl refl refl refl this t2 c2 aA] f2 show ?thesis by simp
    next
      case (Some e)
      with "11.prems"(1) True t have "h' = ?h2" by simp
      with c2 f2 show ?thesis by (simp only: simp_thms)
    qed
  qed
qed

lemma elementsAt_agree: "h' a = h a \<Longrightarrow> elementsAt h' a = elementsAt h a"
  by (simp add: elementsAt_def)

lemma entriesAt_agree: "h' a = h a \<Longrightarrow> entriesAt h' a = entriesAt h a"
  by (simp add: entriesAt_def)

lemma treeOf_agree:
  assumes "\<forall>a\<in>S. h' a = h a" and "closed h S"
  shows "valueRefs v \<subseteq> S \<Longrightarrow> treeOf n h' v = treeOf n h v"
proof (induction n arbitrary: v)
  case 0
  show ?case by simp
next
  case (Suc n)
  show ?case
  proof (cases v)
    case (HSlice a)
    with Suc.prems have aS: "a \<in> S" by simp
    with assms(1) have "h' a = h a" by blast
    then have e: "elementsAt h' a = elementsAt h a" by (rule elementsAt_agree)
    have x: "treeOf n h' x = treeOf n h x" if "x \<in> set (elementsAt h a)" for x
      using that cellRefs_elementsAt [OF that] closed_refs [OF assms(2) aS] by (intro Suc.IH) blast
    have m: "map (treeOf n h') (elementsAt h a) = map (treeOf n h) (elementsAt h a)"
      by (rule map_cong [OF refl]) (rule x)
    show ?thesis by (simp only: HSlice treeOf.simps e m)
  next
    case (HMap a)
    with Suc.prems have aS: "a \<in> S" by simp
    with assms(1) have "h' a = h a" by blast
    then have e: "entriesAt h' a = entriesAt h a" by (rule entriesAt_agree)
    have x: "treeOf n h' x = treeOf n h x" if "(k, x) \<in> set (entriesAt h a)" for k x
      using that cellRefs_entriesAt [OF that] closed_refs [OF assms(2) aS] by (intro Suc.IH) blast
    have m: "map (\<lambda>(k, v). map_option (Pair k) (treeOf n h' v)) (entriesAt h a) =
        map (\<lambda>(k, v). map_option (Pair k) (treeOf n h v)) (entriesAt h a)"
    proof (rule map_cong [OF refl])
      fix p assume p: "p \<in> set (entriesAt h a)"
      obtain k y where "p = (k, y)" by (cases p)
      with p x [of k y] show "(case p of (k, v) \<Rightarrow> map_option (Pair k) (treeOf n h' v)) =
          (case p of (k, v) \<Rightarrow> map_option (Pair k) (treeOf n h v))" by simp
    qed
    show ?thesis by (simp only: HMap treeOf.simps e m)
  qed simp_all
qed

lemma getFilterCommandRecS_agree:
  assumes "\<forall>a\<in>S. h' a = h a" and "closed h S"
  shows "valueRefs filters \<subseteq> S \<Longrightarrow>
           getFilterCommandRecS keys filters h' = getFilterCommandRecS keys filters h"
proof (induction keys arbitrary: filters)
  case Nil
  show ?case by simp
next
  case (Cons k keys)
  show ?case
  proof (cases filters)
    case (HSlice a)
    with Cons.prems have aS: "a \<in> S" by simp
    with assms(1) have "h' a = h a" by blast
    then have e: "elementsAt h' a = elementsAt h a" by (rule elementsAt_agree)
    have x: "getFilterCommandRecS keys (elementsAt h a ! i) h' = getFilterCommandRecS keys (elementsAt h a ! i) h"
      if "i < length (elementsAt h a)" for i
    proof -
      from that have "elementsAt h a ! i \<in> set (elementsAt h a)" by simp
      from cellRefs_elementsAt [OF this] closed_refs [OF assms(2) aS] show ?thesis
        by (intro Cons.IH) blast
    qed
    show ?thesis
    proof (cases "length (elementsAt h a) = 1")
      case True
      then have "0 < length (elementsAt h a)" by simp
      from x [OF this] True show ?thesis by (simp add: HSlice e Let_def)
    next
      case False
      show ?thesis
      proof (cases "ParseInt32 (Trim k [CHR 0x27])")
        case None
        with False show ?thesis by (simp add: HSlice e Let_def)
      next
        case (Some i)
        show ?thesis
        proof (cases "i < int (length (elementsAt h a)) \<and> i \<ge> 0")
          case True
          then have "nat i < length (elementsAt h a)" by linarith
          from x [OF this] True Some False show ?thesis by (simp add: HSlice e Let_def)
        next
          case no: False
          with Some False show ?thesis by (auto simp: HSlice e Let_def)
        qed
      qed
    qed
  next
    case (HMap a)
    with Cons.prems have aS: "a \<in> S" by simp
    with assms(1) have "h' a = h a" by blast
    then have e: "entriesAt h' a = entriesAt h a" by (rule entriesAt_agree)
    have x: "getFilterCommandRecS keys y h' = getFilterCommandRecS keys y h"
      if "map_of (entriesAt h a) key = Some y" for key y
    proof -
      from that have "(key, y) \<in> set (entriesAt h a)" by (rule map_of_SomeD)
      from cellRefs_entriesAt [OF this] closed_refs [OF assms(2) aS] show ?thesis
        by (intro Cons.IH) blast
    qed
    show ?thesis
    proof (cases "map_of (entriesAt h a) (Trim k [CHR 0x27])")
      case None
      then show ?thesis by (simp add: HMap e Let_def)
    next
      case (Some y)
      from x [OF this] Some show ?thesis by (simp add: HMap e Let_def)
    qed
  qed simp_all
qed

text \<open>
  Claim C8. The specification tree is read-only: the resolver returns no store, and a
  complete traversal, with the visitor that \<^verbatim>\<open>doFilter\<close> builds, writes only into cells of
  the data tree. When the cells \<open>D\<close> of the data and the cells \<open>S\<close> of the specification
  are apart, as they are for two decoded documents, every cell of the specification is
  after the pass what it was before, the specification stands for the same tree, and
  every path resolves as before.
\<close>
theorem specification_is_not_written:
  assumes "traverseWithPathS n v [] (\<lambda>path x. doRunFilterS cl path x filters filterRunner) h s =
             Some ((v', err), h', s')"
    and "closed h D" and "valueRefs v \<subseteq> D"
    and "closed h S" and "valueRefs filters \<subseteq> S"
    and "D \<inter> S = {}"
  shows "(\<forall>a\<in>S. h' a = h a) \<and>
         treeOf m h' filters = treeOf m h filters \<and>
         getFilterCommandS p filters h' = getFilterCommandS p filters h"
proof -
  from store_frame(1) [OF assms(1) assms(2) assms(3)] have "\<forall>b. b \<notin> D \<longrightarrow> h' b = h b" by simp
  with assms(6) have same: "\<forall>a\<in>S. h' a = h a" by blast
  moreover have "treeOf m h' filters = treeOf m h filters"
    by (rule treeOf_agree [OF same assms(4) assms(5)])
  moreover have "getFilterCommandS p filters h' = getFilterCommandS p filters h"
    by (simp add: getFilterCommandS_def getFilterCommandRecS_agree [OF same assms(4) assms(5)])
  ultimately show ?thesis by blast
qed

theorem specification_is_not_written_witness:
  "closed (Map.empty(0 \<mapsto> Entries [(''a'', HSlice 1)], 1 \<mapsto> Elements [HString ''x'', HNumber (7::int)],
      2 \<mapsto> Entries [(''a'', HSlice 3)], 3 \<mapsto> Elements [HString ''upper''])) {0, 1} \<and>
   closed (Map.empty(0 \<mapsto> Entries [(''a'', HSlice 1)], 1 \<mapsto> Elements [HString ''x'', HNumber (7::int)],
      2 \<mapsto> Entries [(''a'', HSlice 3)], 3 \<mapsto> Elements [HString ''upper''])) {2, 3} \<and>
   treeOf 3 (fst (snd (the (traverseWithPathS (Suc (Suc (Suc 0))) (HMap 0) []
       (\<lambda>path x. doRunFilterS noCommand path x (HMap 2) (Some (succeeding (\<lambda>c x. c @ x))))
       (Map.empty(0 \<mapsto> Entries [(''a'', HSlice 1)], 1 \<mapsto> Elements [HString ''x'', HNumber (7::int)],
          2 \<mapsto> Entries [(''a'', HSlice 3)], 3 \<mapsto> Elements [HString ''upper''])) ())))) (HMap 2) =
     Some (JObject [(''a'', JArray [JString ''upper''])]) \<and>
   treeOf 3 (fst (snd (the (traverseWithPathS (Suc (Suc (Suc 0))) (HMap 0) []
       (\<lambda>path x. doRunFilterS noCommand path x (HMap 2) (Some (succeeding (\<lambda>c x. c @ x))))
       (Map.empty(0 \<mapsto> Entries [(''a'', HSlice 1)], 1 \<mapsto> Elements [HString ''x'', HNumber (7::int)],
          2 \<mapsto> Entries [(''a'', HSlice 3)], 3 \<mapsto> Elements [HString ''upper''])) ())))) (HMap 0) =
     Some (JObject [(''a'', JArray [JString ''upperx'', JNumber 7])])"
proof -
  let ?h = "Map.empty(0 \<mapsto> Entries [(''a'', HSlice 1)], 1 \<mapsto> Elements [HString ''x'', HNumber (7::int)],
      2 \<mapsto> Entries [(''a'', HSlice 3)], 3 \<mapsto> Elements [HString ''upper''])"
  let ?r = "traverseWithPathS (Suc (Suc (Suc 0))) (HMap 0) []
       (\<lambda>path x. doRunFilterS noCommand path x (HMap 2) (Some (succeeding (\<lambda>c x. c @ x)))) ?h ()"
  have d: "closed ?h {0, 1}" by (simp add: closed_def)
  have c: "closed ?h {2, 3}" by (simp add: closed_def)
  have r: "?r = Some ((HMap 0, None),
      ?h(1 \<mapsto> Elements [HString ''upperx'', HNumber 7], 0 \<mapsto> Entries [(''a'', HSlice 1)]), ())"
    by (simp add: entriesAt_def elementsAt_def doRunFilterS_def succeeding_def decimal_small
        getFilterCommandS_def FieldsFunc_def isBracket_def Trim_def
        upt_rec [of 0] upt_rec [of "Suc 0"] fun_upd_twist)
  have t0: "treeOf 3 ?h (HMap 2) = Some (JObject [(''a'', JArray [JString ''upper''])])"
    by (simp add: numeral_3_eq_3 entriesAt_def elementsAt_def)
  have t1: "treeOf 3 (?h(1 \<mapsto> Elements [HString ''upperx'', HNumber 7], 0 \<mapsto> Entries [(''a'', HSlice 1)])) (HMap 0) =
      Some (JObject [(''a'', JArray [JString ''upperx'', JNumber 7])])"
    by (simp add: numeral_3_eq_3 entriesAt_def elementsAt_def)
  let ?H = "?h(1 \<mapsto> Elements [HString ''upperx'', HNumber 7], 0 \<mapsto> Entries [(''a'', HSlice 1)])"
  have vr: "valueRefs (HMap 0 :: int hvalue) \<subseteq> {0, 1}" by simp
  have fr: "valueRefs (HMap 2 :: int hvalue) \<subseteq> {2, 3}" by simp
  have dj: "{0, 1} \<inter> {2, 3} = ({} :: addr set)" by simp
  have same: "treeOf 3 ?H (HMap 2) = treeOf 3 ?h (HMap 2)"
    using specification_is_not_written [OF r d vr c fr dj, of 3 "[]"] by blast
  have the_r: "fst (snd (the ?r)) = ?H"
    by (simp only: r option.sel fst_conv snd_conv)
  have a: "treeOf 3 (fst (snd (the ?r))) (HMap 2) = Some (JObject [(''a'', JArray [JString ''upper''])])"
    by (simp only: the_r same t0)
  have b: "treeOf 3 (fst (snd (the ?r))) (HMap 0) =
      Some (JObject [(''a'', JArray [JString ''upperx'', JNumber 7])])"
    by (simp only: the_r t1)
  from d c a b show ?thesis by (intro conjI)
qed

end
